theory Spec2Isabelle
  imports Complex_Main
begin

section \<open>Text: characters, lines, substrings\<close>

text \<open>
  The parsers of \<^verbatim>\<open>app.py\<close> work on the text that \<^verbatim>\<open>extract_text_from_pdf\<close>
  returns.  The PDF reader is a library outside the repository, so every parser is modelled
  from the extracted text on.  A Python \<^verbatim>\<open>str\<close> is a \<^typ>\<open>string\<close>; one \<^typ>\<open>char\<close>
  stands for one character with code point below 256, and the character classes below are
  the ones Python uses on that range.
\<close>

definition LF :: char where "LF = char_of (10::nat)"
definition CR :: char where "CR = char_of (13::nat)"

definition is_digit :: "char \<Rightarrow> bool" where
  \<comment> \<open>\<^verbatim>\<open>\d\<close>: the decimal digits\<close>
  "is_digit c \<longleftrightarrow> 48 \<le> (of_char c :: nat) \<and> (of_char c :: nat) \<le> 57"

definition is_upper :: "char \<Rightarrow> bool" where
  \<comment> \<open>\<^verbatim>\<open>[A-Z]\<close>\<close>
  "is_upper c \<longleftrightarrow> 65 \<le> (of_char c :: nat) \<and> (of_char c :: nat) \<le> 90"

definition is_upper_or_digit :: "char \<Rightarrow> bool" where
  \<comment> \<open>\<^verbatim>\<open>[A-Z0-9]\<close>\<close>
  "is_upper_or_digit c \<longleftrightarrow> is_upper c \<or> is_digit c"

definition is_space :: "char \<Rightarrow> bool" where
  \<comment> \<open>\<^verbatim>\<open>\s\<close> and \<^verbatim>\<open>str.isspace\<close>: tab to carriage return, the four separators
      0x1c to 0x1f, blank, next line 0x85, no-break space 0xa0\<close>
  "is_space c \<longleftrightarrow>
     (let n = (of_char c :: nat)
      in (9 \<le> n \<and> n \<le> 13) \<or> (28 \<le> n \<and> n \<le> 32) \<or> n = 133 \<or> n = 160)"

definition is_word :: "char \<Rightarrow> bool" where
  \<comment> \<open>\<^verbatim>\<open>\w\<close>: alphanumeric characters and the underscore\<close>
  "is_word c \<longleftrightarrow>
     (let n = (of_char c :: nat)
      in (48 \<le> n \<and> n \<le> 57) \<or> (65 \<le> n \<and> n \<le> 90) \<or> n = 95 \<or> (97 \<le> n \<and> n \<le> 122)
         \<or> n = 170 \<or> n = 178 \<or> n = 179 \<or> n = 181 \<or> n = 185 \<or> n = 186
         \<or> (188 \<le> n \<and> n \<le> 190) \<or> (192 \<le> n \<and> n \<le> 214) \<or> (216 \<le> n \<and> n \<le> 246)
         \<or> 248 \<le> n)"

definition is_linebreak :: "char \<Rightarrow> bool" where
  \<comment> \<open>the one-character line boundaries of \<^verbatim>\<open>str.splitlines\<close>\<close>
  "is_linebreak c \<longleftrightarrow>
     (let n = (of_char c :: nat)
      in (10 \<le> n \<and> n \<le> 13) \<or> (28 \<le> n \<and> n \<le> 30) \<or> n = 133)"

fun splitlines_from :: "string \<Rightarrow> string \<Rightarrow> string list" where
  \<comment> \<open>first argument: the characters of the current line, last one first\<close>
  "splitlines_from cur [] = (if cur = [] then [] else [rev cur])"
| "splitlines_from cur (c # cs) =
     (if is_linebreak c
      then rev cur # (if c = CR \<and> cs \<noteq> [] \<and> hd cs = LF
                      then splitlines_from [] (tl cs) else splitlines_from [] cs)
      else splitlines_from (c # cur) cs)"

definition splitlines :: "string \<Rightarrow> string list" where
  \<comment> \<open>\<^verbatim>\<open>text.splitlines()\<close>: CR LF is one boundary, no empty line after a final boundary\<close>
  "splitlines text = splitlines_from [] text"

definition strip :: "string \<Rightarrow> string" where
  \<comment> \<open>\<^verbatim>\<open>l.strip()\<close>\<close>
  "strip s = rev (dropWhile is_space (rev (dropWhile is_space s)))"

fun startswith :: "string \<Rightarrow> string \<Rightarrow> bool" where
  "startswith s [] = True"
| "startswith [] (p # ps) = False"
| "startswith (c # cs) (p # ps) = (c = p \<and> startswith cs ps)"

fun contains :: "string \<Rightarrow> string \<Rightarrow> bool" where
  \<comment> \<open>\<^verbatim>\<open>sub in s\<close>\<close>
  "contains [] sub = (sub = [])"
| "contains (c # cs) sub = (startswith (c # cs) sub \<or> contains cs sub)"

definition replace :: "char \<Rightarrow> string \<Rightarrow> string \<Rightarrow> string" where
  \<comment> \<open>\<^verbatim>\<open>s.replace(old, new)\<close> for a one-character \<^verbatim>\<open>old\<close>\<close>
  "replace old new s = concat (map (\<lambda>c. if c = old then new else [c]) s)"

section \<open>Regular expressions\<close>

text \<open>
  The fragment of Python's \<^verbatim>\<open>re\<close> that the parsers use: character classes, sequence,
  greedy bounded and unbounded repetition, one capturing group, \<^verbatim>\<open>\b\<close> and \<^verbatim>\<open>$\<close>.
  The matcher is the backtracking one: \<open>matches r st\<close> lists the states reachable from
  \<open>st\<close> by matching \<open>r\<close>, in the order in which backtracking tries them, so that the head
  of the list is the match Python reports.  A state holds the character before the
  position (for \<^verbatim>\<open>\b\<close>), the rest of the subject and the text of group 1.
\<close>

datatype regex =
    Cls "char \<Rightarrow> bool"
  | Seq regex regex
  | Rep nat "nat option" regex
  | Grp regex
  | WordB
  | Eos

type_synonym mstate = "char option \<times> string \<times> string option"

definition rest :: "mstate \<Rightarrow> string" where
  "rest st = fst (snd st)"

definition group1 :: "mstate \<Rightarrow> string option" where
  "group1 st = snd (snd st)"

definition word_before :: "char option \<Rightarrow> bool" where
  "word_before pv = (case pv of None \<Rightarrow> False | Some c \<Rightarrow> is_word c)"

definition word_after :: "string \<Rightarrow> bool" where
  "word_after a = (case a of [] \<Rightarrow> False | c # _ \<Rightarrow> is_word c)"

function matches :: "regex \<Rightarrow> mstate \<Rightarrow> mstate list" where
  "matches (Cls p) (pv, a, g) =
     (case a of [] \<Rightarrow> [] | c # cs \<Rightarrow> if p c then [(Some c, cs, g)] else [])"
| "matches (Seq r1 r2) st = concat (map (matches r2) (matches r1 st))"
| "matches (Rep m n r) st =
     (if n = Some 0 then []
      else concat (map (matches (Rep (m - 1) (map_option (\<lambda>k. k - 1) n) r))
                    (filter (\<lambda>st'. length (rest st') < length (rest st)) (matches r st))))
     @ (if m = 0 then [st] else [])"
| "matches (Grp r) (pv, a, g) =
     map (\<lambda>st'. (fst st', rest st', Some (take (length a - length (rest st')) a)))
       (matches r (pv, a, g))"
| "matches WordB (pv, a, g) = (if word_before pv \<noteq> word_after a then [(pv, a, g)] else [])"
| "matches Eos (pv, a, g) = (if a = [] \<or> a = [LF] then [(pv, a, g)] else [])"
  by pat_completeness auto

fun rsize :: "regex \<Rightarrow> nat" where
  "rsize (Cls p) = 1"
| "rsize (Seq r1 r2) = Suc (rsize r1 + rsize r2)"
| "rsize (Rep m n r) = Suc (rsize r)"
| "rsize (Grp r) = Suc (rsize r)"
| "rsize WordB = 1"
| "rsize Eos = 1"

termination matches
  by (relation "measures [\<lambda>(r, st). rsize r, \<lambda>(r, st). length (rest st)]") auto

fun search_from :: "regex \<Rightarrow> char option \<Rightarrow> string \<Rightarrow> (string \<times> mstate) option" where
  \<comment> \<open>the leftmost start at which the pattern matches: the subject from that start on, and
      the state after the match\<close>
  "search_from r pv [] =
     (case matches r (pv, [], None) of [] \<Rightarrow> None | e # _ \<Rightarrow> Some ([], e))"
| "search_from r pv (c # cs) =
     (case matches r (pv, c # cs, None) of
        [] \<Rightarrow> search_from r (Some c) cs
      | e # _ \<Rightarrow> Some (c # cs, e))"

definition group0 :: "string \<times> mstate \<Rightarrow> string" where
  \<comment> \<open>\<^verbatim>\<open>m.group(0)\<close>: the text between the start and the end of the match\<close>
  "group0 m = take (length (fst m) - length (rest (snd m))) (fst m)"

definition group_1 :: "string \<times> mstate \<Rightarrow> string" where
  \<comment> \<open>\<^verbatim>\<open>m.group(1)\<close> of a pattern whose group always takes part in a match\<close>
  "group_1 m = (case group1 (snd m) of None \<Rightarrow> [] | Some w \<Rightarrow> w)"

definition re_search :: "regex \<Rightarrow> string \<Rightarrow> (string \<times> mstate) option" where
  \<comment> \<open>\<^verbatim>\<open>re.search(r, s)\<close>\<close>
  "re_search r s = search_from r None s"

function findall_from :: "regex \<Rightarrow> char option \<Rightarrow> string \<Rightarrow> string list" where
  "findall_from r pv a =
     (case search_from r pv a of
        None \<Rightarrow> []
      | Some m \<Rightarrow>
          group_1 m #
          (if length (rest (snd m)) < length a
           then findall_from r (fst (snd m)) (rest (snd m)) else []))"
  by pat_completeness auto

termination findall_from
  by (relation "measure (\<lambda>(r, pv, a). length a)") auto

definition findall :: "regex \<Rightarrow> string \<Rightarrow> string list" where
  \<comment> \<open>\<^verbatim>\<open>re.findall(r, s)\<close> for a pattern with one group: the group's text of every match,
      left to right, each search starting where the previous match ended.  The patterns
      here never match the empty string.\<close>
  "findall r s = findall_from r None s"

section \<open>The patterns of the parsers\<close>

definition digit :: regex where "digit = Cls is_digit"

definition amount_body :: regex where
  \<comment> \<open>\<^verbatim>\<open>\d{1,3}(?:\.\d{3})*,\d{2}\<close>\<close>
  "amount_body =
     Seq (Rep 1 (Some 3) digit)
       (Seq (Rep 0 None (Seq (Cls (\<lambda>c. c = CHR ''.'')) (Rep 3 (Some 3) digit)))
         (Seq (Cls (\<lambda>c. c = CHR '','')) (Rep 2 (Some 2) digit)))"

definition amount_re :: regex where
  \<comment> \<open>\<^verbatim>\<open>(\d{1,3}(?:\.\d{3})*,\d{2})\<close>\<close>
  "amount_re = Grp amount_body"

definition total_regex :: regex where
  \<comment> \<open>\<^verbatim>\<open>(\d{1,3}(?:\.\d{3})*,\d{2})\s*EUR\<close>\<close>
  "total_regex =
     Seq (Grp amount_body)
       (Seq (Rep 0 None (Cls is_space))
         (Seq (Cls (\<lambda>c. c = CHR ''E'')) (Seq (Cls (\<lambda>c. c = CHR ''U'')) (Cls (\<lambda>c. c = CHR ''R'')))))"

definition isin_body :: regex where
  \<comment> \<open>\<^verbatim>\<open>[A-Z]{2}[A-Z0-9]{9}\d\<close>\<close>
  "isin_body =
     Seq (Rep 2 (Some 2) (Cls is_upper)) (Seq (Rep 9 (Some 9) (Cls is_upper_or_digit)) digit)"

definition isin_re :: regex where
  \<comment> \<open>\<^verbatim>\<open>\b([A-Z]{2}[A-Z0-9]{9}\d)\b\<close>\<close>
  "isin_re = Seq WordB (Seq (Grp isin_body) WordB)"

definition qty_body :: regex where
  \<comment> \<open>\<^verbatim>\<open>\d+(?:[\.,]\d+)?\<close>\<close>
  "qty_body =
     Seq (Rep 1 None digit)
       (Rep 0 (Some 1) (Seq (Cls (\<lambda>c. c = CHR ''.'' \<or> c = CHR '','')) (Rep 1 None digit)))"

definition qty_re :: regex where
  \<comment> \<open>\<^verbatim>\<open>(\d+(?:[\.,]\d+)?)$\<close>\<close>
  "qty_re = Seq (Grp qty_body) Eos"

section \<open>Numbers\<close>

text \<open>
  \<^verbatim>\<open>float(s)\<close> on a decimal literal: digits, optionally a point and more digits, with a
  digit on at least one side.  The model returns the decimal number the literal denotes, as
  a rational; Python rounds that number to the nearest binary64 value.  Python accepts
  further literals (signs, exponents, blanks around the literal, underscores, \<^verbatim>\<open>inf\<close>,
  \<^verbatim>\<open>nan\<close>); the parsers never build one, and the model answers them with the error.
\<close>

datatype error = ValueError string

definition digits_val :: "string \<Rightarrow> nat" where
  "digits_val ds = foldl (\<lambda>n c. 10 * n + (of_char c - 48)) 0 ds"

definition py_float :: "string \<Rightarrow> error + rat" where
  "py_float s =
     (let ip = takeWhile is_digit s; r = dropWhile is_digit s
      in if r = [] then
           (if ip = [] then Inl (ValueError ''could not convert string to float'')
            else Inr (of_nat (digits_val ip)))
         else if hd r = CHR ''.'' \<and> list_all is_digit (tl r) \<and> (ip \<noteq> [] \<or> tl r \<noteq> [])
           then Inr (of_nat (digits_val ip) + of_nat (digits_val (tl r)) / 10 ^ length (tl r))
         else Inl (ValueError ''could not convert string to float''))"

definition amount_to_float :: "string \<Rightarrow> error + rat" where
  \<comment> \<open>\<^verbatim>\<open>float(s.replace(".", "").replace(",", "."))\<close>\<close>
  "amount_to_float s = py_float (replace (CHR '','') ''.'' (replace (CHR ''.'') [] s))"

section \<open>The cash statement and the securities total\<close>

fun last_amount_of_first :: "string \<Rightarrow> string list \<Rightarrow> (error + rat) option" where
  \<comment> \<open>the loop \<^verbatim>\<open>for line in lines: if marker in line: ... if amounts: return ...\<close>;
      \<open>None\<close> when the loop ends without returning\<close>
  "last_amount_of_first marker [] = None"
| "last_amount_of_first marker (line # lines) =
     (if contains line marker then
        (let amounts = findall amount_re line
         in if amounts \<noteq> [] then Some (amount_to_float (last amounts))
            else last_amount_of_first marker lines)
      else last_amount_of_first marker lines)"

definition BalanceNotFound :: error where
  "BalanceNotFound = ValueError ''Impossibile leggere il saldo dal PDF cash account.''"

definition PortfolioTotalNotFound :: error where
  "PortfolioTotalNotFound =
     ValueError ''Impossibile leggere il valore totale titoli dal PDF securities.''"

definition parse_tr_cash_statement :: "string \<Rightarrow> error + rat" where
  "parse_tr_cash_statement text =
     (let lines = splitlines text
      in case last_amount_of_first ''Conto corrente'' lines of
           Some r \<Rightarrow> r
         | None \<Rightarrow>
             (case last_amount_of_first ''Citibank'' lines of
                Some r \<Rightarrow> r
              | None \<Rightarrow> Inl BalanceNotFound))"

definition parse_tr_securities_statement :: "string \<Rightarrow> error + rat" where
  "parse_tr_securities_statement text =
     (let lines = splitlines text
      in case last_amount_of_first ''NUMERO DI POSIZIONI'' lines of
           Some r \<Rightarrow> r
         | None \<Rightarrow> Inl PortfolioTotalNotFound)"

section \<open>The position-aware securities parser\<close>

record holding =
  name :: string
  isin :: string
  quantity :: rat
  market_value :: rat

record current =
  cur_name :: string
  cur_isin :: "string option"
  cur_qty :: "rat option"

definition fresh :: current where
  \<comment> \<open>\<^verbatim>\<open>{"name": "", "isin": None, "qty": None}\<close>\<close>
  "fresh = \<lparr>cur_name = [], cur_isin = None, cur_qty = None\<rparr>"

definition is_open :: "current \<Rightarrow> bool" where
  \<comment> \<open>the truth value of \<^verbatim>\<open>current["isin"]\<close>: neither \<^verbatim>\<open>None\<close> nor the empty string\<close>
  "is_open cur = (case cur_isin cur of None \<Rightarrow> False | Some s \<Rightarrow> s \<noteq> [])"

definition qty_or_zero :: "rat option \<Rightarrow> rat" where
  \<comment> \<open>\<^verbatim>\<open>current["qty"] or 0.0\<close>\<close>
  "qty_or_zero q = (case q of None \<Rightarrow> 0 | Some v \<Rightarrow> if v = 0 then 0 else v)"

definition emit :: "current \<Rightarrow> holding" where
  "emit cur =
     \<lparr>name = strip (cur_name cur),
      isin = (case cur_isin cur of None \<Rightarrow> [] | Some s \<Rightarrow> s),
      quantity = qty_or_zero (cur_qty cur),
      market_value = 0\<rparr>"

definition has_iva :: "string \<Rightarrow> bool" where
  "has_iva line \<longleftrightarrow> contains line ''IVA'' \<or> contains line ''P. IVA''"

definition add_name :: "holding list \<times> current \<Rightarrow> string \<Rightarrow> holding list \<times> current" where
  \<comment> \<open>\<^verbatim>\<open>if current["isin"]: current["name"] += " " + line\<close>\<close>
  "add_name pc line =
     (if is_open (snd pc)
      then (fst pc, (snd pc)\<lparr>cur_name := cur_name (snd pc) @ '' '' @ line\<rparr>)
      else pc)"

definition step :: "holding list \<times> current \<Rightarrow> string \<Rightarrow> holding list \<times> current" where
  \<comment> \<open>one pass through the body of the second loop: the positions emitted so far and the
      holding under construction, before and after the line\<close>
  "step pc line =
     (if has_iva line then pc
      else
        case re_search isin_re line of
          Some isin_match \<Rightarrow>
            (let pc' = (if is_open (snd pc) then (fst pc @ [emit (snd pc)], fresh) else pc)
             in (fst pc', (snd pc')\<lparr>cur_isin := Some (group0 isin_match)\<rparr>))
        | None \<Rightarrow>
            (case re_search qty_re line of
               Some qty_match \<Rightarrow>
                 (if is_open (snd pc) then
                    (case py_float (replace (CHR '','') ''.'' (group_1 qty_match)) of
                       Inr v \<Rightarrow> (fst pc, (snd pc)\<lparr>cur_qty := Some v\<rparr>)
                     | Inl e \<Rightarrow> add_name pc line)
                  else add_name pc line)
             | None \<Rightarrow> add_name pc line))"

definition reconstruct :: "string list \<Rightarrow> holding list" where
  \<comment> \<open>the second loop and the emission of the last position\<close>
  "reconstruct lines =
     (let pc = foldl step ([], fresh) lines
      in if is_open (snd pc) then fst pc @ [emit (snd pc)] else fst pc)"

fun find_total :: "string list \<Rightarrow> error + rat" where
  \<comment> \<open>the first loop: the total stays 0.0 unless a marker line matches \<^verbatim>\<open>total_regex\<close>\<close>
  "find_total [] = Inr 0"
| "find_total (line # lines) =
     (if contains line ''NUMERO DI POSIZIONI'' then
        (case re_search total_regex line of
           Some m \<Rightarrow> amount_to_float (group_1 m)
         | None \<Rightarrow> find_total lines)
      else find_total lines)"

definition logical_lines :: "string \<Rightarrow> string list" where
  \<comment> \<open>\<^verbatim>\<open>[l.strip() for l in text.splitlines() if l.strip()]\<close>\<close>
  "logical_lines text = filter (\<lambda>l. l \<noteq> []) (map strip (splitlines text))"

definition parse_tr_securities_statement_with_positions ::
    "string \<Rightarrow> error + (rat \<times> holding list)" where
  "parse_tr_securities_statement_with_positions text =
     (let lines = logical_lines text
      in case find_total lines of
           Inl e \<Rightarrow> Inl e
         | Inr total_value \<Rightarrow> Inr (total_value, reconstruct lines))"

section \<open>What a match consumes\<close>

text \<open>
  \<open>lang r w\<close>: the pattern \<open>r\<close> can consume the word \<open>w\<close> (the two assertions consume
  nothing).  Every state the matcher reaches is reached by consuming such a word.
\<close>

inductive lang :: "regex \<Rightarrow> string \<Rightarrow> bool" where
  lang_Cls: "p c \<Longrightarrow> lang (Cls p) [c]"
| lang_Seq: "lang r1 u \<Longrightarrow> lang r2 v \<Longrightarrow> lang (Seq r1 r2) (u @ v)"
| lang_Rep0: "lang (Rep 0 n r) []"
| lang_RepS: "n \<noteq> Some 0 \<Longrightarrow> lang r u \<Longrightarrow> u \<noteq> [] \<Longrightarrow>
     lang (Rep (m - 1) (map_option (\<lambda>k. k - 1) n) r) v \<Longrightarrow> lang (Rep m n r) (u @ v)"
| lang_Grp: "lang r w \<Longrightarrow> lang (Grp r) w"
| lang_WordB: "lang WordB []"
| lang_Eos: "lang Eos []"

definition last_char :: "char option \<Rightarrow> string \<Rightarrow> char option" where
  "last_char pv w = (if w = [] then pv else Some (last w))"

definition isin_shape :: "string \<Rightarrow> bool" where
  \<comment> \<open>two capitals, nine capitals or digits, one digit\<close>
  "isin_shape s \<longleftrightarrow>
     length s = 12 \<and> list_all is_upper (take 2 s)
     \<and> list_all is_upper_or_digit (take 9 (drop 2 s)) \<and> list_all is_digit (drop 11 s)"

definition identifiers_of :: "string list \<Rightarrow> string list" where
  \<comment> \<open>the identifiers in the order of the lines that hold them, lines with IVA left out\<close>
  "identifiers_of lines =
     concat (map (\<lambda>l. if has_iva l then []
                       else case re_search isin_re l of None \<Rightarrow> [] | Some m \<Rightarrow> [group0 m]) lines)"

definition pending :: "holding list \<times> current \<Rightarrow> string list" where
  \<comment> \<open>the identifiers of the emitted positions, then the one under construction\<close>
  "pending pc = map isin (fst pc) @ (case cur_isin (snd pc) of None \<Rightarrow> [] | Some s \<Rightarrow> [s])"



definition fullmatch :: "regex \<Rightarrow> string \<Rightarrow> bool" where
  \<comment> \<open>\<^verbatim>\<open>re.fullmatch(r, s) is not None\<close>\<close>
  "fullmatch r s = list_ex (\<lambda>e. rest e = []) (matches r (None, s, None))"

definition ident_of :: "string \<Rightarrow> string option" where
  \<comment> \<open>the identifier a line gives to the reconstruction, if any\<close>
  "ident_of l = (if has_iva l then None else map_option group0 (re_search isin_re l))"

definition qty_of :: "string \<Rightarrow> rat option" where
  \<comment> \<open>the quantity a line without identifier gives to an open holding, if any\<close>
  "qty_of l =
     (if has_iva l then None
      else case re_search qty_re l of
             None \<Rightarrow> None
           | Some q \<Rightarrow>
               (case py_float (replace (CHR '','') ''.'' (group_1 q)) of
                  Inr v \<Rightarrow> Some v
                | Inl e \<Rightarrow> None))"

definition is_name_line :: "string \<Rightarrow> bool" where
  \<comment> \<open>a line without identifier that an open holding appends to its name\<close>
  "is_name_line l \<longleftrightarrow> \<not> has_iva l \<and> qty_of l = None"

fun collect :: "string list \<Rightarrow> string list \<times> (string \<times> string list) list" where
  \<comment> \<open>the lines before the first identifier line, and then every identifier with the
      lines that follow it up to the next identifier line\<close>
  "collect [] = ([], [])"
| "collect (l # ls) =
     (case ident_of l of
        Some m \<Rightarrow> ([], (m, fst (collect ls)) # snd (collect ls))
      | None \<Rightarrow> (l # fst (collect ls), snd (collect ls)))"

definition spec_segments :: "string list \<Rightarrow> (string \<times> string list) list" where
  "spec_segments lines = snd (collect lines)"

definition spec_holding :: "string \<times> string list \<Rightarrow> holding" where
  \<comment> \<open>the holding of an identifier and the lines that follow it, in the words of the
      specification: the name is the name lines joined by blanks and trimmed, the quantity
      is that of a quantity line or 0.0, the market value is 0.0\<close>
  "spec_holding seg =
     \<lparr>name = strip (concat (map (\<lambda>l. CHR '' '' # l) (filter is_name_line (snd seg)))),
      isin = fst seg,
      quantity = qty_or_zero (case List.map_filter qty_of (snd seg) of
                                [] \<Rightarrow> None | q # qs \<Rightarrow> Some (last (q # qs))),
      market_value = 0\<rparr>"

definition absorb :: "current \<Rightarrow> string list \<Rightarrow> current" where
  "absorb cur body =
     cur\<lparr>cur_name := cur_name cur @ concat (map (\<lambda>l. CHR '' '' # l) (filter is_name_line body)),
         cur_qty := (case List.map_filter qty_of body of
                       [] \<Rightarrow> cur_qty cur | q # qs \<Rightarrow> Some (last (q # qs)))\<rparr>"

definition finish :: "holding list \<times> current \<Rightarrow> holding list" where
  "finish pc = (if is_open (snd pc) then fst pc @ [emit (snd pc)] else fst pc)"

fun plain :: "regex \<Rightarrow> bool" where
  \<comment> \<open>no assertion inside: the pattern looks at nothing but what it consumes\<close>
  "plain (Cls p) = True"
| "plain (Seq r1 r2) = (plain r1 \<and> plain r2)"
| "plain (Rep m n r) = plain r"
| "plain (Grp r) = plain r"
| "plain WordB = False"
| "plain Eos = False"

section \<open>Facts about the matcher\<close>

declare matches.simps(3) [simp del]

lemma last_char_append: "last_char (last_char pv u) v = last_char pv (u @ v)"
  by (simp add: last_char_def)

lemma matches_sound:
  "e \<in> set (matches r st) \<Longrightarrow>
     \<exists>w. rest st = w @ rest e \<and> lang r w \<and> fst e = last_char (fst st) w"
proof (induction r st arbitrary: e rule: matches.induct)
  case (1 p pv a g)
  then obtain c cs where a: "a = c # cs" "p c" "e = (Some c, cs, g)"
    by (cases a) (simp_all split: if_splits)
  have "lang (Cls p) [c]" using a(2) by (rule lang_Cls)
  then show ?case using a
    by (intro exI[of _ "[c]"]) (simp add: rest_def last_char_def)
next
  case (2 r1 r2 st)
  from "2.prems" obtain e1 where e1: "e1 \<in> set (matches r1 st)" and e: "e \<in> set (matches r2 e1)"
    by auto
  from "2.IH"(1)[OF e1] obtain u where u: "rest st = u @ rest e1" "lang r1 u" "fst e1 = last_char (fst st) u"
    by blast
  from "2.IH"(2)[OF e1 e] obtain v where v: "rest e1 = v @ rest e" "lang r2 v" "fst e = last_char (fst e1) v"
    by blast
  have "lang (Seq r1 r2) (u @ v)" using u(2) v(2) by (rule lang_Seq)
  then show ?case
    using u v by (intro exI[of _ "u @ v"]) (simp add: last_char_append)
next
  case (3 m n r st)
  from "3.prems" consider
      (iter) e1 where "n \<noteq> Some 0" "e1 \<in> set (matches r st)" "length (rest e1) < length (rest st)"
        "e \<in> set (matches (Rep (m - 1) (map_option (\<lambda>k. k - 1) n) r) e1)"
    | (stop) "m = 0" "e = st"
    by (auto simp: matches.simps(3)[of m n r st] split: if_splits)
  then show ?case
  proof cases
    case iter
    from "3.IH"(1)[OF iter(1,2)] obtain u where u: "rest st = u @ rest e1" "lang r u" "fst e1 = last_char (fst st) u"
      by blast
    have e1': "e1 \<in> set (filter (\<lambda>st'. length (rest st') < length (rest st)) (matches r st))"
      using iter by simp
    from "3.IH"(2)[OF iter(1) e1' iter(4)] obtain v where
      v: "rest e1 = v @ rest e" "lang (Rep (m - 1) (map_option (\<lambda>k. k - 1) n) r) v" "fst e = last_char (fst e1) v"
      by blast
    have "u \<noteq> []" using u(1) iter(3) by auto
    then have "lang (Rep m n r) (u @ v)"
      using iter(1) u(2) v(2) by (intro lang_RepS)
    then show ?thesis
      using u v by (intro exI[of _ "u @ v"]) (simp add: last_char_append)
  next
    case stop
    then show ?thesis using lang_Rep0[of n r] by (intro exI[of _ "[]"]) (simp add: last_char_def)
  qed
next
  case (4 r pv a g)
  from "4.prems" obtain e' where e': "e' \<in> set (matches r (pv, a, g))" and e: "e = (fst e', rest e', Some (take (length a - length (rest e')) a))"
    by auto
  from "4.IH"[OF e'] obtain w where w: "rest (pv, a, g) = w @ rest e'" "lang r w" "fst e' = last_char (fst (pv, a, g)) w"
    by blast
  have "lang (Grp r) w" using w(2) by (rule lang_Grp)
  then show ?case using e w
    by (intro exI[of _ w]) (simp add: rest_def)
next
  case (5 pv a g)
  then have "e = (pv, a, g)" by (simp split: if_splits)
  then show ?case using lang_WordB by (intro exI[of _ "[]"]) (simp add: last_char_def)
next
  case (6 pv a g)
  then have "e = (pv, a, g)" by (simp split: if_splits)
  then show ?case using lang_Eos by (intro exI[of _ "[]"]) (simp add: last_char_def)
qed

inductive_cases lang_ClsE: "lang (Cls p) w"
inductive_cases lang_SeqE: "lang (Seq r1 r2) w"
inductive_cases lang_GrpE: "lang (Grp r) w"
inductive_cases lang_WordBE: "lang WordB w"
inductive_cases lang_EosE: "lang Eos w"
inductive_cases lang_RepE: "lang (Rep m n r) w"

lemma lang_Rep_all:
  "lang r w \<Longrightarrow> r = Rep m n r0 \<Longrightarrow> (\<And>u. lang r0 u \<Longrightarrow> list_all q u) \<Longrightarrow> list_all q w"
  by (induction arbitrary: m n rule: lang.induct) auto

lemma lang_Rep_Cls_len:
  "lang r w \<Longrightarrow> r = Rep m n (Cls p) \<Longrightarrow> m \<le> length w \<and> (\<forall>k. n = Some k \<longrightarrow> length w \<le> k)"
proof (induction arbitrary: m n rule: lang.induct)
  case (lang_RepS n' r' u m' v)
  from lang_RepS.prems lang_RepS.hyps(2) have "length u = 1" by (auto elim: lang_ClsE)
  moreover from lang_RepS.IH(2)[of "m - 1" "map_option (\<lambda>k. k - 1) n"] lang_RepS.prems
  have "m - 1 \<le> length v \<and> (\<forall>k. map_option (\<lambda>k. k - 1) n = Some k \<longrightarrow> length v \<le> k)" by simp
  ultimately show ?case using lang_RepS.hyps(1) lang_RepS.prems
    by (cases n) auto
qed auto

lemma lang_Rep_Cls:
  assumes "lang (Rep m n (Cls p)) w"
  shows "list_all p w" and "m \<le> length w" and "n = Some k \<Longrightarrow> length w \<le> k"
proof -
  show "list_all p w"
    by (rule lang_Rep_all[OF assms refl]) (auto elim: lang_ClsE)
  show "m \<le> length w" using lang_Rep_Cls_len[OF assms refl] by simp
  show "n = Some k \<Longrightarrow> length w \<le> k" using lang_Rep_Cls_len[OF assms refl] by simp
qed

lemma lang_Rep_zero: "lang (Rep m (Some 0) r) w \<Longrightarrow> w = []"
  by (erule lang_RepE) simp_all

lemma lang_opt:
  assumes "lang (Rep 0 (Some 1) r) w" shows "w = [] \<or> lang r w"
  using assms by (rule lang_RepE) (auto dest: lang_Rep_zero)

lemma search_from_sound:
  "search_from r pv a = Some m \<Longrightarrow>
     \<exists>pv0 x. a = x @ fst m \<and> snd m \<in> set (matches r (pv0, fst m, None))"
proof (induction a arbitrary: pv)
  case Nil
  then obtain e es where "matches r (pv, [], None) = e # es" "m = ([], e)"
    by (auto split: list.splits)
  then show ?case by (intro exI[of _ pv] exI[of _ "[]"]) simp
next
  case (Cons c cs)
  show ?case
  proof (cases "matches r (pv, c # cs, None)")
    case Nil
    with Cons.prems have "search_from r (Some c) cs = Some m" by simp
    from Cons.IH[OF this] obtain pv0 x where "cs = x @ fst m" "snd m \<in> set (matches r (pv0, fst m, None))"
      by blast
    then show ?thesis by (intro exI[of _ pv0] exI[of _ "c # x"]) simp
  next
    case (Cons e es)
    with Cons.prems have "m = (c # cs, e)" by simp
    with Cons show ?thesis by (intro exI[of _ pv] exI[of _ "[]"]) simp
  qed
qed

lemma Grp_sound:
  assumes "e \<in> set (matches (Grp r) (pv, a, g))"
  shows "\<exists>w. a = w @ rest e \<and> lang r w \<and> group1 e = Some w \<and> fst e = last_char pv w"
proof -
  from assms obtain e' where e': "e' \<in> set (matches r (pv, a, g))"
    and e: "e = (fst e', rest e', Some (take (length a - length (rest e')) a))"
    by auto
  from matches_sound[OF e'] obtain w where w: "a = w @ rest e'" "lang r w" "fst e' = last_char pv w"
    by (auto simp: rest_def)
  have "take (length a - length (rest e')) a = w"
    by (subst (1 2) w(1)) simp
  with e w show ?thesis by (intro exI[of _ w]) (simp add: rest_def group1_def)
qed


inductive_simps lang_Seq_iff: "lang (Seq r1 r2) w"
inductive_simps lang_Cls_iff: "lang (Cls p) w"
inductive_simps lang_Grp_iff: "lang (Grp r) w"
inductive_simps lang_WordB_iff: "lang WordB w"
inductive_simps lang_Eos_iff: "lang Eos w"

lemma isin_body_shape:
  assumes "lang isin_body w" shows "isin_shape w"
proof -
  from assms obtain a v where 1: "w = a @ v" "lang (Rep 2 (Some 2) (Cls is_upper)) a"
      "lang (Seq (Rep 9 (Some 9) (Cls is_upper_or_digit)) digit) v"
    unfolding isin_body_def lang_Seq_iff[of "Rep 2 (Some 2) (Cls is_upper)"] by blast
  from 1(3) obtain b c where 2: "v = b @ c" "lang (Rep 9 (Some 9) (Cls is_upper_or_digit)) b" "lang digit c"
    unfolding lang_Seq_iff by blast
  from 2(3) obtain d where d: "c = [d]" "is_digit d"
    unfolding digit_def lang_Cls_iff by blast
  have la: "length a = 2" using lang_Rep_Cls(2)[OF 1(2)] lang_Rep_Cls(3)[OF 1(2) refl] by simp
  have lb: "length b = 9" using lang_Rep_Cls(2)[OF 2(2)] lang_Rep_Cls(3)[OF 2(2) refl] by simp
  show ?thesis
    using lang_Rep_Cls(1)[OF 1(2)] lang_Rep_Cls(1)[OF 2(2)] la lb d
    by (simp add: isin_shape_def 1(1) 2(1))
qed


lemma isin_search_shape:
  assumes "re_search isin_re line = Some m"
  shows "isin_shape (group0 m)" and "\<exists>x y. line = x @ group0 m @ y"
proof -
  from search_from_sound[OF assms[unfolded re_search_def]] obtain pv0 x where
    x: "line = x @ fst m" and e: "snd m \<in> set (matches isin_re (pv0, fst m, None))"
    by blast
  from matches_sound[OF e] obtain w where w: "fst m = w @ rest (snd m)" "lang isin_re w"
    by (auto simp: rest_def)
  have g: "group0 m = w"
    unfolding group0_def by (subst (1 2) w(1)) simp
  from w(2) have "lang isin_body w"
    unfolding isin_re_def lang_Seq_iff lang_WordB_iff lang_Grp_iff by auto
  then show "isin_shape (group0 m)" using g isin_body_shape by simp
  show "\<exists>x y. line = x @ group0 m @ y"
    using x w(1) g by (intro exI[of _ x] exI[of _ "rest (snd m)"]) simp
qed

section \<open>Facts about the reconstruction loop\<close>

lemma group0_nonempty: "re_search isin_re l = Some m \<Longrightarrow> group0 m \<noteq> []"
  using isin_search_shape(1)[of l m] by (auto simp: isin_shape_def)

lemma step_iva: "has_iva l \<Longrightarrow> step pc l = pc"
  by (simp add: step_def)

lemma step_isin:
  "\<not> has_iva l \<Longrightarrow> re_search isin_re l = Some m \<Longrightarrow>
   step pc l = (if is_open (snd pc)
                then (fst pc @ [emit (snd pc)], fresh\<lparr>cur_isin := Some (group0 m)\<rparr>)
                else (fst pc, (snd pc)\<lparr>cur_isin := Some (group0 m)\<rparr>))"
  by (simp add: step_def Let_def)

lemma step_other:
  "\<not> has_iva l \<Longrightarrow> re_search isin_re l = None \<Longrightarrow>
   fst (step pc l) = fst pc \<and> cur_isin (snd (step pc l)) = cur_isin (snd pc)"
  by (simp add: step_def add_name_def split: option.splits sum.splits)

lemma foldl_step_filter:
  "foldl step pc (filter (\<lambda>l. \<not> has_iva l) lines) = foldl step pc lines"
  by (induction lines arbitrary: pc) (simp_all add: step_iva)

lemma step_pending:
  assumes "cur_isin (snd pc) \<noteq> Some []"
  shows "cur_isin (snd (step pc l)) \<noteq> Some [] \<and> pending (step pc l) = pending pc @ identifiers_of [l]"
proof (cases "has_iva l")
  case True
  then show ?thesis using assms by (simp add: step_iva identifiers_of_def)
next
  case False
  show ?thesis
  proof (cases "re_search isin_re l")
    case None
    with False assms step_other[OF False None, of pc] show ?thesis
      by (simp add: pending_def identifiers_of_def)
  next
    case (Some m)
    from group0_nonempty[OF Some] assms False Some show ?thesis
      by (auto simp: step_isin[OF False Some] pending_def identifiers_of_def is_open_def emit_def fresh_def
          split: option.splits)
  qed
qed

lemma identifiers_of_append: "identifiers_of (xs @ ys) = identifiers_of xs @ identifiers_of ys"
  by (simp add: identifiers_of_def)

lemma foldl_step_pending:
  "cur_isin (snd pc) \<noteq> Some [] \<Longrightarrow>
   cur_isin (snd (foldl step pc lines)) \<noteq> Some [] \<and>
   pending (foldl step pc lines) = pending pc @ identifiers_of lines"
proof (induction lines arbitrary: pc)
  case Nil
  then show ?case by (simp add: identifiers_of_def)
next
  case (Cons l ls)
  from step_pending[OF Cons.prems, of l] Cons.IH[of "step pc l"]
  show ?case using identifiers_of_append[of "[l]" ls] by simp
qed

lemma reconstruct_identifiers: "map isin (reconstruct lines) = identifiers_of lines"
proof -
  have "cur_isin (snd ([], fresh)) \<noteq> Some []" by (simp add: fresh_def)
  from foldl_step_pending[OF this, of lines]
  show ?thesis
    by (auto simp: reconstruct_def Let_def pending_def is_open_def emit_def fresh_def split: option.splits)
qed

section \<open>Every emitted holding is well formed\<close>







section \<open>Amounts and their conversion\<close>

lemma replace_del: "replace c [] s = filter (\<lambda>x. x \<noteq> c) s"
  by (induction s) (simp_all add: replace_def)

lemma replace_char: "replace c [d] s = map (\<lambda>x. if x = c then d else x) s"
  by (induction s) (simp_all add: replace_def)

lemma digits_val_snoc: "digits_val (ds @ [c]) = 10 * digits_val ds + (of_char c - 48)"
  by (simp add: digits_val_def)

lemma digits_val_append:
  "digits_val (a @ b) = digits_val a * 10 ^ length b + digits_val b"
proof (induction b rule: rev_induct)
  case Nil
  then show ?case by (simp add: digits_val_def)
next
  case (snoc c b)
  have "digits_val (a @ b @ [c]) = 10 * digits_val (a @ b) + (of_char c - 48)"
    using digits_val_snoc[of "a @ b" c] by simp
  also have "\<dots> = 10 * (digits_val a * 10 ^ length b + digits_val b) + (of_char c - 48)"
    by (simp add: snoc.IH)
  also have "\<dots> = digits_val a * 10 ^ length (b @ [c]) + digits_val (b @ [c])"
    by (simp add: digits_val_snoc algebra_simps)
  finally show ?case by simp
qed

lemma not_digit_point: "\<not> is_digit CHR ''.''" "\<not> is_digit CHR '',''"
  by (simp_all add: is_digit_def)

lemma py_float_decimal:
  assumes "list_all is_digit ip" "list_all is_digit f" "ip \<noteq> [] \<or> f \<noteq> []"
  shows "py_float (ip @ CHR ''.'' # f)
           = Inr (of_nat (digits_val ip) + of_nat (digits_val f) / 10 ^ length f)"
proof -
  have t: "takeWhile is_digit (ip @ CHR ''.'' # f) = ip"
    using assms(1) by (simp add: list_all_iff not_digit_point)
  have d: "dropWhile is_digit (ip @ CHR ''.'' # f) = CHR ''.'' # f"
    using assms(1) by (simp add: list_all_iff not_digit_point)
  show ?thesis
    unfolding py_float_def Let_def t d using assms(2,3) by simp
qed

lemma py_float_integer:
  assumes "list_all is_digit ip" "ip \<noteq> []"
  shows "py_float ip = Inr (of_nat (digits_val ip))"
proof -
  have t: "takeWhile is_digit ip = ip" "dropWhile is_digit ip = []"
    using assms(1) by (simp_all add: list_all_iff)
  show ?thesis unfolding py_float_def Let_def t using assms(2) by simp
qed

lemma amount_groups:
  assumes "lang (Rep m None (Seq (Cls (\<lambda>c. c = CHR ''.'')) (Rep 3 (Some 3) digit))) g"
  shows "list_all (\<lambda>c. c = CHR ''.'' \<or> is_digit c) g"
proof (rule lang_Rep_all[OF assms refl])
  fix u assume "lang (Seq (Cls (\<lambda>c. c = CHR ''.'')) (Rep 3 (Some 3) digit)) u"
  then obtain x where u: "u = CHR ''.'' # x" and x: "lang (Rep 3 (Some 3) (Cls is_digit)) x"
    unfolding lang_Seq_iff lang_Cls_iff digit_def by auto
  from lang_Rep_Cls(1)[OF x] show "list_all (\<lambda>c. c = CHR ''.'' \<or> is_digit c) u"
    by (simp add: u list_all_iff)
qed

lemma amount_body_parts:
  assumes "lang amount_body w"
  shows "\<exists>u f. w = u @ CHR '','' # f \<and> list_all (\<lambda>c. c = CHR ''.'' \<or> is_digit c) u
           \<and> u \<noteq> [] \<and> is_digit (hd u) \<and> list_all is_digit f \<and> length f = 2"
proof -
  from assms obtain d v where 1: "w = d @ v" "lang (Rep 1 (Some 3) (Cls is_digit)) d"
      "lang (Seq (Rep 0 None (Seq (Cls (\<lambda>c. c = CHR ''.'')) (Rep 3 (Some 3) digit)))
         (Seq (Cls (\<lambda>c. c = CHR '','')) (Rep 2 (Some 2) digit))) v"
    unfolding amount_body_def lang_Seq_iff[of "Rep 1 (Some 3) digit"] digit_def[symmetric]
    unfolding digit_def by blast
  from 1(3) obtain g v' where 2: "v = g @ v'"
      "lang (Rep 0 None (Seq (Cls (\<lambda>c. c = CHR ''.'')) (Rep 3 (Some 3) digit))) g"
      "lang (Seq (Cls (\<lambda>c. c = CHR '','')) (Rep 2 (Some 2) digit)) v'"
    unfolding lang_Seq_iff[of "Rep 0 None (Seq (Cls (\<lambda>c. c = CHR ''.'')) (Rep 3 (Some 3) digit))"]
    by blast
  from 2(3) obtain f where 3: "v' = CHR '','' # f" "lang (Rep 2 (Some 2) (Cls is_digit)) f"
    unfolding lang_Seq_iff lang_Cls_iff digit_def by auto
  have d: "list_all is_digit d" "d \<noteq> []"
    using lang_Rep_Cls(1,2)[OF 1(2)] by auto
  have f: "list_all is_digit f" "length f = 2"
    using lang_Rep_Cls(1)[OF 3(2)] lang_Rep_Cls(2)[OF 3(2)] lang_Rep_Cls(3)[OF 3(2) refl] by auto
  have g: "list_all (\<lambda>c. c = CHR ''.'' \<or> is_digit c) g"
    by (rule amount_groups[OF 2(2)])
  have "w = (d @ g) @ CHR '','' # f" by (simp add: 1 2 3)
  moreover have "list_all (\<lambda>c. c = CHR ''.'' \<or> is_digit c) (d @ g)"
    using d(1) g by (auto simp: list_all_iff)
  moreover have "d @ g \<noteq> []" "is_digit (hd (d @ g))"
    using d by (cases d; simp)+
  ultimately show ?thesis using f by blast
qed

lemma digit_not_sep: "is_digit x \<Longrightarrow> x \<noteq> CHR ''.'' \<and> x \<noteq> CHR '',''"
  using not_digit_point by blast

lemma amount_to_float_parts:
  assumes u: "list_all (\<lambda>c. c = CHR ''.'' \<or> is_digit c) u" "u \<noteq> []" "is_digit (hd u)"
    and f: "list_all is_digit f" "length f = 2"
  shows "replace (CHR '','') ''.'' (replace (CHR ''.'') [] (u @ CHR '','' # f))
           = filter is_digit u @ CHR ''.'' # f"
    and "amount_to_float (u @ CHR '','' # f)
           = Inr (of_nat (digits_val (filter is_digit (u @ CHR '','' # f))) / 100)"
proof -
  have fu: "filter (\<lambda>x. x \<noteq> CHR ''.'') u = filter is_digit u"
  proof (rule filter_cong[OF refl])
    fix x assume "x \<in> set u"
    then have "x = CHR ''.'' \<or> is_digit x" using u(1) by (simp add: list_all_iff)
    then show "(x \<noteq> CHR ''.'') = is_digit x" using not_digit_point(1) by blast
  qed
  have f1: "filter (\<lambda>x. x \<noteq> CHR ''.'') f = f"
    by (rule filter_True) (use f(1) digit_not_sep in \<open>simp add: list_all_iff\<close>)
  have f2: "filter is_digit f = f"
    by (rule filter_True) (use f(1) in \<open>simp add: list_all_iff\<close>)
  have m1: "map (\<lambda>x. if x = CHR '','' then CHR ''.'' else x) (filter is_digit u) = filter is_digit u"
    by (rule map_idI) (use digit_not_sep in simp)
  have m2: "map (\<lambda>x. if x = CHR '','' then CHR ''.'' else x) f = f"
    by (rule map_idI) (use f(1) digit_not_sep in \<open>simp add: list_all_iff\<close>)
  show r: "replace (CHR '','') ''.'' (replace (CHR ''.'') [] (u @ CHR '','' # f))
           = filter is_digit u @ CHR ''.'' # f"
    unfolding replace_del replace_char by (simp add: fu f1 m1 m2)
  have ne: "filter is_digit u \<noteq> []"
    using u(2,3) by (cases u) simp_all
  have du: "list_all is_digit (filter is_digit u)"
    by (simp add: list_all_iff)
  have "amount_to_float (u @ CHR '','' # f)
     = Inr (of_nat (digits_val (filter is_digit u)) + of_nat (digits_val f) / 10 ^ length f)"
    unfolding amount_to_float_def r using du f(1) ne by (intro py_float_decimal) simp_all
  also have "of_nat (digits_val (filter is_digit u)) + of_nat (digits_val f) / 10 ^ length f
     = (of_nat (digits_val (filter is_digit u @ f)) / 100 :: rat)"
    unfolding digits_val_append f(2) by (simp add: add_divide_distrib)
  also have "filter is_digit u @ f = filter is_digit (u @ CHR '','' # f)"
    by (simp add: f2 not_digit_point)
  finally show "amount_to_float (u @ CHR '','' # f)
           = Inr (of_nat (digits_val (filter is_digit (u @ CHR '','' # f))) / 100)" .
qed

lemma amount_to_float_lang:
  assumes "lang amount_body w"
  shows "amount_to_float w = Inr (of_nat (digits_val (filter is_digit w)) / 100)"
proof -
  from amount_body_parts[OF assms] obtain u f where
    "w = u @ CHR '','' # f" "list_all (\<lambda>c. c = CHR ''.'' \<or> is_digit c) u"
    "u \<noteq> []" "is_digit (hd u)" "list_all is_digit f" "length f = 2"
    by blast
  then show ?thesis using amount_to_float_parts(2)[of u f] by simp
qed

lemma fullmatch_lang:
  assumes "fullmatch (Grp r) s" shows "lang r s"
proof -
  from assms obtain e where e: "e \<in> set (matches (Grp r) (None, s, None))" "rest e = []"
    by (auto simp: fullmatch_def list_ex_iff)
  from Grp_sound[OF e(1)] e(2) show ?thesis by auto
qed

lemma amount_literal:
  assumes "lang amount_body w"
  shows "replace (CHR '','') ''.'' (replace (CHR ''.'') [] w)
           = filter is_digit (takeWhile (\<lambda>c. c \<noteq> CHR '','') w) @ CHR ''.'' # drop (length w - 2) w"
proof -
  from amount_body_parts[OF assms] obtain u f where w: "w = u @ CHR '','' # f"
    and u: "list_all (\<lambda>c. c = CHR ''.'' \<or> is_digit c) u" "u \<noteq> []" "is_digit (hd u)"
    and f: "list_all is_digit f" "length f = 2"
    by blast
  have n: "\<forall>x\<in>set u. x \<noteq> CHR '',''"
  proof
    fix x assume "x \<in> set u"
    with u(1) have "x = CHR ''.'' \<or> is_digit x" by (simp add: list_all_iff)
    then show "x \<noteq> CHR '',''" using not_digit_point(2) by auto
  qed
  have "takeWhile (\<lambda>c. c \<noteq> CHR '','') (u @ CHR '','' # f)
      = u @ takeWhile (\<lambda>c. c \<noteq> CHR '','') (CHR '','' # f)"
    by (rule takeWhile_append2) (use n in blast)
  then have t: "takeWhile (\<lambda>c. c \<noteq> CHR '','') w = u"
    unfolding w by simp
  have d: "drop (length w - 2) w = f"
    unfolding w using f(2) by simp
  show ?thesis
    unfolding t d unfolding w by (rule amount_to_float_parts(1)[OF u f])
qed

section \<open>The cash statement parser\<close>

declare findall_from.simps [simp del]

lemma findall_from_sound:
  "t \<in> set (findall_from (Grp r) pv a) \<Longrightarrow> lang r t"
proof (induction "Grp r" pv a rule: findall_from.induct)
  case (1 pv a)
  show ?case
  proof (cases "search_from (Grp r) pv a")
    case None
    then have "findall_from (Grp r) pv a = []"
      by (subst findall_from.simps) simp
    with "1.prems" show ?thesis by simp
  next
    case (Some m)
    from search_from_sound[OF Some] obtain pv0 where
      e: "snd m \<in> set (matches (Grp r) (pv0, fst m, None))" by blast
    from Grp_sound[OF e] obtain w where w: "lang r w" "group1 (snd m) = Some w" by blast
    then have g: "lang r (group_1 m)" by (simp add: group_1_def)
    have eq: "findall_from (Grp r) pv a = group_1 m #
          (if length (rest (snd m)) < length a
           then findall_from (Grp r) (fst (snd m)) (rest (snd m)) else [])"
      by (subst findall_from.simps) (simp add: Some)
    show ?thesis
    proof (cases "t = group_1 m")
      case True
      then show ?thesis using g by simp
    next
      case False
      with "1.prems" eq have 2: "length (rest (snd m)) < length a"
        "t \<in> set (findall_from (Grp r) (fst (snd m)) (rest (snd m)))"
        by (simp_all split: if_splits)
      from "1.hyps"[OF Some 2(1) 2(2)] show ?thesis .
    qed
  qed
qed

lemma findall_amount_sound: "t \<in> set (findall amount_re s) \<Longrightarrow> lang amount_body t"
  unfolding findall_def amount_re_def by (rule findall_from_sound)

lemma last_amount_float:
  assumes "findall amount_re line \<noteq> []"
  shows "amount_to_float (last (findall amount_re line))
           = Inr (of_nat (digits_val (filter is_digit (last (findall amount_re line)))) / 100)"
  using amount_to_float_lang[OF findall_amount_sound[OF last_in_set[OF assms]]] .

lemma last_amount_of_first_find:
  "last_amount_of_first marker lines =
     (case find (\<lambda>l. contains l marker \<and> findall amount_re l \<noteq> []) lines of
        None \<Rightarrow> None
      | Some l \<Rightarrow> Some (amount_to_float (last (findall amount_re l))))"
  by (induction lines) (simp_all add: Let_def)

lemma find_conj:
  "find P xs = Some x \<Longrightarrow> Q x \<Longrightarrow> find (\<lambda>l. P l \<and> Q l) xs = Some x"
  by (induction xs) (auto split: if_splits)

lemma find_None_all: "find P xs = None \<longleftrightarrow> (\<forall>x\<in>set xs. \<not> P x)"
  by (induction xs) auto

lemma amount_to_float_last_Inr:
  "findall amount_re l \<noteq> [] \<Longrightarrow> \<exists>v. amount_to_float (last (findall amount_re l)) = Inr v"
  using last_amount_float by blast

lemma parse_tr_cash_statement_find:
  "parse_tr_cash_statement text =
     (case find (\<lambda>l. contains l ''Conto corrente'' \<and> findall amount_re l \<noteq> []) (splitlines text) of
        Some l \<Rightarrow> amount_to_float (last (findall amount_re l))
      | None \<Rightarrow>
          (case find (\<lambda>l. contains l ''Citibank'' \<and> findall amount_re l \<noteq> []) (splitlines text) of
             Some l \<Rightarrow> amount_to_float (last (findall amount_re l))
           | None \<Rightarrow> Inl BalanceNotFound))"
  by (simp add: parse_tr_cash_statement_def Let_def last_amount_of_first_find
      split: option.splits)

lemma find_Some_in: "find P xs = Some x \<Longrightarrow> x \<in> set xs \<and> P x"
  by (induction xs) (auto split: if_splits)

section \<open>The reconstruction against its specification\<close>

lemma reconstruct_finish: "reconstruct lines = finish (foldl step ([], fresh) lines)"
  by (simp add: reconstruct_def finish_def Let_def)

lemma step_ident:
  assumes "ident_of l = Some m"
  shows "step (ps, cur) l =
           (if is_open cur then (ps @ [emit cur], fresh\<lparr>cur_isin := Some m\<rparr>)
            else (ps, cur\<lparr>cur_isin := Some m\<rparr>))"
    and "m \<noteq> []"
proof -
  from assms obtain mt where m: "\<not> has_iva l" "re_search isin_re l = Some mt" "m = group0 mt"
    by (auto simp: ident_of_def split: if_splits)
  show "step (ps, cur) l =
           (if is_open cur then (ps @ [emit cur], fresh\<lparr>cur_isin := Some m\<rparr>)
            else (ps, cur\<lparr>cur_isin := Some m\<rparr>))"
    using step_isin[OF m(1,2), of "(ps, cur)"] m(3) by simp
  show "m \<noteq> []" using group0_nonempty[OF m(2)] m(3) by simp
qed

lemma step_body:
  assumes "ident_of l = None"
  shows "step (ps, cur) l =
           (ps, if \<not> is_open cur \<or> has_iva l then cur
                else case qty_of l of
                       Some v \<Rightarrow> cur\<lparr>cur_qty := Some v\<rparr>
                     | None \<Rightarrow> cur\<lparr>cur_name := cur_name cur @ '' '' @ l\<rparr>)"
proof (cases "has_iva l")
  case True
  then show ?thesis by (simp add: step_iva)
next
  case False
  with assms have n: "re_search isin_re l = None"
    by (simp add: ident_of_def)
  show ?thesis
    using False n
    by (simp add: step_def add_name_def qty_of_def split: option.splits sum.splits)
qed

lemma qty_of_iva: "has_iva l \<Longrightarrow> qty_of l = None"
  by (simp add: qty_of_def)

lemma absorb_Nil: "absorb cur [] = cur"
  by (simp add: absorb_def)

lemma is_open_absorb_step:
  assumes "ident_of l = None" "is_open cur"
  shows "is_open (snd (step (ps, cur) l))"
    and "fst (step (ps, cur) l) = ps"
    and "absorb (snd (step (ps, cur) l)) body = absorb cur (l # body)"
proof -
  show "is_open (snd (step (ps, cur) l))"
    using assms(2) by (simp add: step_body[OF assms(1)] is_open_def split: option.splits)
  show "fst (step (ps, cur) l) = ps"
    by (simp add: step_body[OF assms(1)])
  show "absorb (snd (step (ps, cur) l)) body = absorb cur (l # body)"
    using assms(2)
    by (auto simp: step_body[OF assms(1)] absorb_def is_name_line_def qty_of_iva
        split: option.splits list.splits)
qed

lemma emit_absorb_fresh:
  "emit (absorb (fresh\<lparr>cur_isin := Some m\<rparr>) body) = spec_holding (m, body)"
  by (simp add: emit_def absorb_def fresh_def spec_holding_def split: list.splits)

lemma finish_foldl_step:
  "(is_open cur \<longrightarrow>
      finish (foldl step (ps, cur) lines)
        = ps @ emit (absorb cur (fst (collect lines))) # map spec_holding (snd (collect lines)))
   \<and> finish (foldl step (ps, fresh) lines) = ps @ map spec_holding (snd (collect lines))"
proof (induction lines arbitrary: ps cur)
  case Nil
  have "\<not> is_open fresh" by (simp add: is_open_def fresh_def)
  then show ?case by (simp add: finish_def absorb_Nil)
next
  case (Cons l ls)
  have idle: "\<not> is_open fresh" by (simp add: is_open_def fresh_def)
  show ?case
  proof (cases "ident_of l")
    case (Some m)
    let ?c = "fresh\<lparr>cur_isin := Some m\<rparr>"
    have o: "is_open ?c" using step_ident(2)[OF Some] by (simp add: is_open_def)
    have c: "collect (l # ls) = ([], (m, fst (collect ls)) # snd (collect ls))"
      by (simp add: Some)
    have f: "fresh\<lparr>cur_isin := Some m\<rparr> = ?c" ..
    have a: "\<And>qs. finish (foldl step (qs, ?c) ls)
        = qs @ spec_holding (m, fst (collect ls)) # map spec_holding (snd (collect ls))"
      using Cons.IH[of ?c] o by (simp add: emit_absorb_fresh)
    show ?thesis
    proof (intro conjI impI)
      assume "is_open cur"
      then have "step (ps, cur) l = (ps @ [emit cur], ?c)"
        using step_ident(1)[OF Some, of ps cur] by simp
      then show "finish (foldl step (ps, cur) (l # ls))
        = ps @ emit (absorb cur (fst (collect (l # ls)))) # map spec_holding (snd (collect (l # ls)))"
        using a[of "ps @ [emit cur]"] by (simp add: c absorb_Nil del: collect.simps)
    next
      have "step (ps, fresh) l = (ps, ?c)"
        using step_ident(1)[OF Some, of ps fresh] idle by simp
      then show "finish (foldl step (ps, fresh) (l # ls))
        = ps @ map spec_holding (snd (collect (l # ls)))"
        using a[of ps] by (simp add: c del: collect.simps)
    qed
  next
    case None
    have c: "collect (l # ls) = (l # fst (collect ls), snd (collect ls))"
      by (simp add: None)
    show ?thesis
    proof (intro conjI impI)
      assume op: "is_open cur"
      obtain cur' where s: "step (ps, cur) l = (ps, cur')"
        using is_open_absorb_step(2)[OF None op, of ps] by (cases "step (ps, cur) l") simp
      have o': "is_open cur'" using is_open_absorb_step(1)[OF None op, of ps] s by simp
      have a': "absorb cur' (fst (collect ls)) = absorb cur (l # fst (collect ls))"
        using is_open_absorb_step(3)[OF None op, of ps] s by simp
      show "finish (foldl step (ps, cur) (l # ls))
        = ps @ emit (absorb cur (fst (collect (l # ls)))) # map spec_holding (snd (collect (l # ls)))"
        using Cons.IH[of cur' ps] o' by (simp add: s c a' del: collect.simps)
    next
      have "step (ps, fresh) l = (ps, fresh)"
        using step_body[OF None, of ps fresh] idle by simp
      then show "finish (foldl step (ps, fresh) (l # ls))
        = ps @ map spec_holding (snd (collect (l # ls)))"
        using Cons.IH[of fresh ps] by (simp add: c del: collect.simps)
    qed
  qed
qed

lemma reconstruct_spec: "reconstruct lines = map spec_holding (spec_segments lines)"
  using finish_foldl_step[of fresh "[]" lines]
  by (simp add: reconstruct_finish spec_segments_def)



section \<open>The matcher finds every match of a pattern without assertions\<close>

lemma matches_complete:
  "lang r w \<Longrightarrow> plain r \<Longrightarrow> \<exists>e \<in> set (matches r (pv, w @ a, g)). rest e = a"
proof (induction arbitrary: pv a g rule: lang.induct)
  case (lang_Cls p c)
  then show ?case by (simp add: rest_def)
next
  case (lang_Seq r1 u r2 v)
  from lang_Seq.prems have p: "plain r1" "plain r2" by simp_all
  from lang_Seq.IH(1)[OF p(1), of pv "v @ a" g] obtain e1 where
    e1: "e1 \<in> set (matches r1 (pv, u @ v @ a, g))" "rest e1 = v @ a" by blast
  obtain pv1 g1 where s: "e1 = (pv1, v @ a, g1)"
    using e1(2) by (cases e1) (simp add: rest_def)
  from lang_Seq.IH(2)[OF p(2), of pv1 a g1] obtain e where
    e: "e \<in> set (matches r2 e1)" "rest e = a" unfolding s by blast
  show ?case using e1(1) e by auto
next
  case (lang_Rep0 n r)
  have "(pv, a, g) \<in> set (matches (Rep 0 n r) (pv, a, g))"
    by (simp add: matches.simps(3)[of 0 n r "(pv, a, g)"])
  moreover have "rest (pv, a, g) = a" by (simp add: rest_def)
  ultimately show ?case by (intro bexI[of _ "(pv, a, g)"]) simp_all
next
  case (lang_RepS n r u m v)
  from lang_RepS.prems have p: "plain r" "plain (Rep (m - 1) (map_option (\<lambda>k. k - 1) n) r)"
    by simp_all
  from lang_RepS.IH(1)[OF p(1), of pv "v @ a" g] obtain e1 where
    e1: "e1 \<in> set (matches r (pv, u @ v @ a, g))" "rest e1 = v @ a" by blast
  obtain pv1 g1 where s: "e1 = (pv1, v @ a, g1)"
    using e1(2) by (cases e1) (simp add: rest_def)
  from lang_RepS.IH(2)[OF p(2), of pv1 a g1] obtain e where
    e: "e \<in> set (matches (Rep (m - 1) (map_option (\<lambda>k. k - 1) n) r) e1)" "rest e = a"
    unfolding s by blast
  let ?st = "(pv, u @ v @ a, g)"
  have l: "length (rest e1) < length (rest ?st)"
    using lang_RepS.hyps(3) e1(2) by (simp add: rest_def)
  have "e1 \<in> set (filter (\<lambda>st'. length (rest st') < length (rest ?st)) (matches r ?st))"
    using e1(1) l by simp
  then have "e \<in> set (concat (map (matches (Rep (m - 1) (map_option (\<lambda>k. k - 1) n) r))
      (filter (\<lambda>st'. length (rest st') < length (rest ?st)) (matches r ?st))))"
    using e(1) unfolding set_concat set_map by blast
  then have "e \<in> set (matches (Rep m n r) ?st)"
    using lang_RepS.hyps(1) by (simp add: matches.simps(3)[of m n r ?st])
  then show ?case using e(2) by auto
next
  case (lang_Grp r w)
  from lang_Grp.prems have "plain r" by simp
  from lang_Grp.IH[OF this, of pv a g] obtain e' where
    e': "e' \<in> set (matches r (pv, w @ a, g))" "rest e' = a" by blast
  let ?e = "(fst e', rest e', Some (take (length (w @ a) - length (rest e')) (w @ a)))"
  have "?e \<in> set (matches (Grp r) (pv, w @ a, g))" using e'(1) by force
  moreover have "rest ?e = a" using e'(2) by (simp add: rest_def)
  ultimately show ?case by blast
next
  case lang_WordB
  then show ?case by simp
next
  case lang_Eos
  then show ?case by simp
qed

lemma search_from_complete:
  "matches r (last_char pv x, a, None) \<noteq> [] \<Longrightarrow> search_from r pv (x @ a) \<noteq> None"
proof (induction x arbitrary: pv)
  case Nil
  then show ?case by (cases a) (auto simp: last_char_def split: list.splits)
next
  case (Cons c x)
  have "last_char (Some c) x = last_char pv (c # x)"
    by (simp add: last_char_def)
  with Cons.prems have "matches r (last_char (Some c) x, a, None) \<noteq> []" by simp
  from Cons.IH[OF this] show ?case by (auto split: list.splits)
qed

section \<open>Lines, trimmed lines and the two patterns of the total\<close>

lemma startswith_iff: "startswith s p \<longleftrightarrow> (\<exists>y. s = p @ y)"
  by (induction s p rule: startswith.induct) auto

lemma contains_iff: "contains s sub \<longleftrightarrow> (\<exists>x y. s = x @ sub @ y)"
proof (induction s)
  case Nil
  then show ?case by simp
next
  case (Cons c cs)
  show ?case
  proof
    assume "contains (c # cs) sub"
    then consider "startswith (c # cs) sub" | "contains cs sub" by auto
    then show "\<exists>x y. c # cs = x @ sub @ y"
    proof cases
      case 1
      then obtain y where "c # cs = sub @ y" unfolding startswith_iff by blast
      then have "c # cs = [] @ sub @ y" by simp
      then show ?thesis by blast
    next
      case 2
      with Cons.IH obtain x y where "cs = x @ sub @ y" by blast
      then have "c # cs = (c # x) @ sub @ y" by simp
      then show ?thesis by blast
    qed
  next
    assume "\<exists>x y. c # cs = x @ sub @ y"
    then obtain x y where e: "c # cs = x @ sub @ y" by blast
    show "contains (c # cs) sub"
    proof (cases x)
      case Nil
      with e have "startswith (c # cs) sub" unfolding startswith_iff by auto
      then show ?thesis by simp
    next
      case (Cons d x')
      with e have "cs = x' @ sub @ y" by simp
      with Cons.IH have "contains cs sub" by blast
      then show ?thesis by simp
    qed
  qed
qed

lemma strip_decomp: "\<exists>p q. l = p @ strip l @ q"
proof -
  let ?d = "dropWhile is_space l"
  have 1: "l = takeWhile is_space l @ ?d" by simp
  have "rev (takeWhile is_space (rev ?d) @ dropWhile is_space (rev ?d)) = rev (rev ?d)"
    by (simp only: takeWhile_dropWhile_id)
  then have "rev (dropWhile is_space (rev ?d)) @ rev (takeWhile is_space (rev ?d)) = ?d"
    by (simp only: rev_append rev_rev_ident)
  then have 2: "?d = strip l @ rev (takeWhile is_space (rev ?d))"
    unfolding strip_def by (rule sym)
  have "l = takeWhile is_space l @ strip l @ rev (takeWhile is_space (rev ?d))"
    using 1 2 by metis
  then show ?thesis by blast
qed

lemma contains_strip: "contains (strip l) sub \<Longrightarrow> contains l sub"
proof -
  assume "contains (strip l) sub"
  then obtain x y where s: "strip l = x @ sub @ y" unfolding contains_iff by blast
  from strip_decomp[of l] obtain p q where "l = p @ strip l @ q" by blast
  then have "l = (p @ x) @ sub @ (y @ q)" unfolding s by simp
  then show ?thesis unfolding contains_iff by blast
qed

lemma plain_amount: "plain (Grp amount_body)"
  by (simp add: amount_body_def digit_def)

lemma amount_found_in_context:
  assumes "lang amount_body w"
  shows "findall amount_re (x @ w @ y) \<noteq> []"
proof -
  have "lang (Grp amount_body) w" using assms by (rule lang_Grp)
  from matches_complete[OF this plain_amount, of "last_char None x" y None]
  have "matches amount_re (last_char None x, w @ y, None) \<noteq> []"
    unfolding amount_re_def by auto
  from search_from_complete[OF this] obtain m where
    "search_from amount_re None (x @ w @ y) = Some m" by auto
  then show ?thesis
    unfolding findall_def by (subst findall_from.simps) simp
qed

lemma total_regex_amount:
  assumes "re_search total_regex (strip l) = Some m"
  shows "findall amount_re l \<noteq> []"
proof -
  from search_from_sound[OF assms[unfolded re_search_def]] obtain pv0 x where
    x: "strip l = x @ fst m" and e: "snd m \<in> set (matches total_regex (pv0, fst m, None))"
    by blast
  from e obtain e1 where e1: "e1 \<in> set (matches (Grp amount_body) (pv0, fst m, None))"
    unfolding total_regex_def by auto
  from Grp_sound[OF e1] obtain w where w: "fst m = w @ rest e1" "lang amount_body w" by blast
  from strip_decomp[of l] obtain p q where "l = p @ strip l @ q" by blast
  then have "l = (p @ x) @ w @ (rest e1 @ q)" unfolding x w(1) by simp
  then show ?thesis using amount_found_in_context[OF w(2), of "p @ x" "rest e1 @ q"] by simp
qed

lemma find_total_zero:
  "(\<forall>l \<in> set lines. contains l ''NUMERO DI POSIZIONI'' \<longrightarrow> re_search total_regex l = None)
     \<Longrightarrow> find_total lines = Inr 0"
  by (induction lines) simp_all

lemma last_amount_of_first_None:
  "(\<forall>l \<in> set lines. contains l marker \<longrightarrow> findall amount_re l = [])
     \<Longrightarrow> last_amount_of_first marker lines = None"
  by (induction lines) (simp_all add: Let_def)

section \<open>Identifier lines\<close>

lemma lang_Rep_Cls_intro:
  "list_all p w \<Longrightarrow> m \<le> length w \<Longrightarrow> (\<And>k. n = Some k \<Longrightarrow> length w \<le> k)
     \<Longrightarrow> lang (Rep m n (Cls p)) w"
proof (induction w arbitrary: m n)
  case Nil
  then show ?case by (simp add: lang_Rep0)
next
  case (Cons c cs)
  have 1: "n \<noteq> Some 0" using Cons.prems(3)[of 0] by auto
  have 2: "lang (Cls p) [c]" using Cons.prems(1) by (simp add: lang_Cls)
  have 3: "lang (Rep (m - 1) (map_option (\<lambda>k. k - 1) n) (Cls p)) cs"
  proof (rule Cons.IH)
    show "list_all p cs" using Cons.prems(1) by simp
    show "m - 1 \<le> length cs" using Cons.prems(2) by simp
    fix k assume "map_option (\<lambda>k. k - 1) n = Some k"
    then obtain j where "n = Some j" "k = j - 1" by auto
    with Cons.prems(3)[of j] show "length cs \<le> k" by simp
  qed
  have "lang (Rep m n (Cls p)) ([c] @ cs)"
    using 1 2 _ 3 by (rule lang_RepS) simp
  then show ?case by simp
qed

lemma class_word: "is_upper c \<Longrightarrow> is_word c" "is_digit c \<Longrightarrow> is_word c"
  by (auto simp: is_upper_def is_digit_def is_word_def Let_def)

lemma isin_shape_lang:
  assumes "isin_shape w" shows "lang isin_body w"
proof -
  from assms have l: "length w = 12" and a: "list_all is_upper (take 2 w)"
    and b: "list_all is_upper_or_digit (take 9 (drop 2 w))" and c: "list_all is_digit (drop 11 w)"
    by (simp_all add: isin_shape_def)
  have la: "lang (Rep 2 (Some 2) (Cls is_upper)) (take 2 w)"
    using a l by (intro lang_Rep_Cls_intro) simp_all
  have lb: "lang (Rep 9 (Some 9) (Cls is_upper_or_digit)) (take 9 (drop 2 w))"
    using b l by (intro lang_Rep_Cls_intro) simp_all
  from l obtain d where d: "drop 11 w = [d]"
    by (cases "drop 11 w") (auto dest: arg_cong[of _ _ length])
  have lc: "lang digit (drop 11 w)"
    using c unfolding d digit_def by (simp add: lang_Cls)
  have "drop 9 (drop 2 w) = drop 11 w" by simp
  then have "w = take 2 w @ take 9 (drop 2 w) @ drop 11 w"
    by (metis append_take_drop_id)
  moreover have "lang isin_body (take 2 w @ take 9 (drop 2 w) @ drop 11 w)"
    unfolding isin_body_def by (intro lang_Seq la lb lc)
  ultimately show ?thesis by simp
qed

lemma plain_isin: "plain (Grp isin_body)"
  by (simp add: isin_body_def digit_def)

lemma isin_shape_matches:
  assumes "isin_shape w" shows "matches isin_re (None, w, None) \<noteq> []"
proof -
  from assms have l: "length w = 12" by (simp add: isin_shape_def)
  then obtain c cs where w: "w = c # cs" by (cases w) auto
  from assms have "is_upper c" by (simp add: isin_shape_def w)
  then have wa: "word_after w" by (simp add: word_after_def w class_word)
  have "list_all is_digit (drop 11 w)" using assms by (simp add: isin_shape_def)
  moreover have "last w \<in> set (drop 11 w)"
  proof -
    have n: "drop 11 w \<noteq> []" using l by simp
    have "last (drop 11 w) = last w" using l by (intro last_drop) simp
    with last_in_set[OF n] show ?thesis by simp
  qed
  ultimately have ld: "is_digit (last w)" by (simp add: list_all_iff)
  have "lang (Grp isin_body) w" using isin_shape_lang[OF assms] by (rule lang_Grp)
  from matches_complete[OF this plain_isin, of None "[]" None] obtain e1 where
    e1: "e1 \<in> set (matches (Grp isin_body) (None, w, None))" "rest e1 = []" by auto
  from Grp_sound[OF e1(1)] obtain w' where "w = w' @ rest e1" "fst e1 = last_char None w'"
    by blast
  with e1(2) have "fst e1 = last_char None w" by simp
  then have "fst e1 = Some (last w)"
    using w by (simp add: last_char_def)
  then obtain g1 where s: "e1 = (Some (last w), [], g1)"
    using e1(2) by (cases e1) (simp add: rest_def)
  have wb: "matches WordB e1 = [e1]"
    unfolding s using ld by (simp add: word_before_def word_after_def class_word)
  have w0: "matches WordB (None, w, None) = [(None, w, None)]"
    using wa by (simp add: word_before_def)
  have "e1 \<in> set (matches WordB e1)" using wb by simp
  with e1(1) have "e1 \<in> set (concat (map (matches WordB)
      (matches (Grp isin_body) (None, w, None))))"
    unfolding set_concat set_map by blast
  then have "e1 \<in> set (matches (Seq (Grp isin_body) WordB) (None, w, None))"
    by (simp only: matches.simps(2))
  moreover have "matches isin_re (None, w, None)
      = concat (map (matches (Seq (Grp isin_body) WordB)) (matches WordB (None, w, None)))"
    unfolding isin_re_def by (rule matches.simps(2))
  moreover have "concat (map (matches (Seq (Grp isin_body) WordB)) (matches WordB (None, w, None)))
      = matches (Seq (Grp isin_body) WordB) (None, w, None)"
    unfolding w0 by (simp del: matches.simps(2))
  ultimately have "e1 \<in> set (matches isin_re (None, w, None))"
    by simp
  then show ?thesis by auto
qed

lemma isin_self:
  assumes "isin_shape w"
  shows "\<exists>m. re_search isin_re w = Some m \<and> group0 m = w"
proof -
  have "matches isin_re (last_char None [], w, None) \<noteq> []"
    using isin_shape_matches[OF assms] by (simp add: last_char_def)
  from search_from_complete[OF this] obtain m where m: "re_search isin_re w = Some m"
    by (auto simp: re_search_def)
  from isin_search_shape[OF m] obtain x y where
    s: "isin_shape (group0 m)" "w = x @ group0 m @ y" by blast
  have "length w = length x + length (group0 m) + length y"
    by (subst s(2)) simp
  with assms s(1) have "x = []" "y = []" by (simp_all add: isin_shape_def)
  with s(2) m show ?thesis by simp
qed

lemma has_iva_sub: "has_iva w \<Longrightarrow> has_iva (x @ w @ y)"
proof -
  have c: "\<And>sub. contains w sub \<Longrightarrow> contains (x @ w @ y) sub"
  proof -
    fix sub assume "contains w sub"
    then obtain a b where "w = a @ sub @ b" unfolding contains_iff by blast
    then have "x @ w @ y = (x @ a) @ sub @ (b @ y)" by simp
    then show "contains (x @ w @ y) sub" unfolding contains_iff by blast
  qed
  assume "has_iva w" then show ?thesis unfolding has_iva_def using c by blast
qed

lemma ident_of_self: "ident_of l = Some i \<Longrightarrow> ident_of i = Some i"
proof -
  assume a: "ident_of l = Some i"
  then obtain m where m: "\<not> has_iva l" "re_search isin_re l = Some m" "i = group0 m"
    by (auto simp: ident_of_def split: if_splits)
  from isin_search_shape[OF m(2)] obtain x y where
    s: "isin_shape i" "l = x @ i @ y" unfolding m(3) by blast
  have "\<not> has_iva i" using m(1) has_iva_sub[of i x y] s(2) by auto
  moreover from isin_self[OF s(1)] obtain m' where "re_search isin_re i = Some m'" "group0 m' = i"
    by blast
  ultimately show ?thesis by (simp add: ident_of_def)
qed

lemma collect_same_ident:
  "ident_of l = Some i \<Longrightarrow> ident_of l' = Some i \<Longrightarrow>
   collect (xs @ l # ys) = collect (xs @ l' # ys)"
proof (induction xs)
  case Nil
  then show ?case by simp
next
  case (Cons a xs)
  from Cons.IH[OF Cons.prems] have "collect (xs @ l # ys) = collect (xs @ l' # ys)" .
  then show ?case by (simp only: append_Cons collect.simps)
qed

lemma reconstruct_skip_iva:
  "has_iva l \<Longrightarrow> reconstruct (xs @ l # ys) = reconstruct (xs @ ys)"
  by (simp add: reconstruct_def step_iva)

section \<open>Quantity lines\<close>

lemma matches_Seq_Eos:
  assumes "e \<in> set (matches (Seq r Eos) st)"
  shows "e \<in> set (matches r st)" and "rest e = [] \<or> rest e = [LF]"
proof -
  from assms obtain e1 where e1: "e1 \<in> set (matches r st)" "e \<in> set (matches Eos e1)"
    by auto
  obtain pv a g where s: "e1 = (pv, a, g)" by (cases e1) auto
  from e1(2) have "e = e1 \<and> (a = [] \<or> a = [LF])"
    unfolding s by (simp split: if_splits)
  then show "e \<in> set (matches r st)" "rest e = [] \<or> rest e = [LF]"
    using e1(1) s by (auto simp: rest_def)
qed

lemma qty_body_parts:
  assumes "lang qty_body w"
  shows "\<exists>ds. list_all is_digit ds \<and> ds \<noteq> [] \<and>
          (w = ds \<or> (\<exists>sep fs. w = ds @ sep # fs \<and> (sep = CHR ''.'' \<or> sep = CHR '','')
                        \<and> list_all is_digit fs \<and> fs \<noteq> []))"
proof -
  from assms obtain ds v where 1: "w = ds @ v" "lang (Rep 1 None (Cls is_digit)) ds"
      "lang (Rep 0 (Some 1) (Seq (Cls (\<lambda>c. c = CHR ''.'' \<or> c = CHR '','')) (Rep 1 None digit))) v"
    unfolding qty_body_def lang_Seq_iff[of "Rep 1 None digit"] digit_def[symmetric]
    unfolding digit_def by blast
  have d: "list_all is_digit ds" "ds \<noteq> []"
    using lang_Rep_Cls(1,2)[OF 1(2)] by auto
  from lang_opt[OF 1(3)] consider "v = []"
    | "lang (Seq (Cls (\<lambda>c. c = CHR ''.'' \<or> c = CHR '','')) (Rep 1 None digit)) v" by blast
  then show ?thesis
  proof cases
    case 1
    then show ?thesis using d \<open>w = ds @ v\<close> by auto
  next
    case 2
    then obtain sep fs where v: "v = sep # fs" "sep = CHR ''.'' \<or> sep = CHR '',''"
        "lang (Rep 1 None (Cls is_digit)) fs"
      unfolding lang_Seq_iff lang_Cls_iff digit_def by auto
    have f: "list_all is_digit fs" "fs \<noteq> []"
      using lang_Rep_Cls(1,2)[OF v(3)] by auto
    show ?thesis using d f v(1,2) \<open>w = ds @ v\<close> by blast
  qed
qed

lemma qty_body_last_digit:
  assumes "lang qty_body w" shows "w \<noteq> []" and "is_digit (last w)"
proof -
  from qty_body_parts[OF assms] obtain ds where ds: "list_all is_digit ds" "ds \<noteq> []"
    and w: "w = ds \<or> (\<exists>sep fs. w = ds @ sep # fs \<and> list_all is_digit fs \<and> fs \<noteq> [])"
    by blast
  show "w \<noteq> []" using ds(2) w by auto
  from w show "is_digit (last w)"
  proof
    assume "w = ds"
    then show ?thesis using ds last_in_set[OF ds(2)] by (simp add: list_all_iff)
  next
    assume "\<exists>sep fs. w = ds @ sep # fs \<and> list_all is_digit fs \<and> fs \<noteq> []"
    then obtain sep fs where f: "w = ds @ sep # fs" "list_all is_digit fs" "fs \<noteq> []" by blast
    then have "last w = last fs" by simp
    then show ?thesis using f(2) last_in_set[OF f(3)] by (simp add: list_all_iff)
  qed
qed

lemma qty_body_float:
  assumes "lang qty_body w"
  shows "\<exists>v. py_float (replace (CHR '','') ''.'' w) = Inr v"
proof -
  from qty_body_parts[OF assms] obtain ds where ds: "list_all is_digit ds" "ds \<noteq> []"
    and w: "w = ds \<or> (\<exists>sep fs. w = ds @ sep # fs \<and> (sep = CHR ''.'' \<or> sep = CHR '','')
                        \<and> list_all is_digit fs \<and> fs \<noteq> [])"
    by blast
  have m: "\<And>xs. list_all is_digit xs \<Longrightarrow>
      map (\<lambda>x. if x = CHR '','' then CHR ''.'' else x) xs = xs"
    by (rule map_idI) (use digit_not_sep in \<open>simp add: list_all_iff\<close>)
  from w show ?thesis
  proof
    assume "w = ds"
    then show ?thesis using py_float_integer[OF ds] by (simp add: replace_char m[OF ds(1)])
  next
    assume "\<exists>sep fs. w = ds @ sep # fs \<and> (sep = CHR ''.'' \<or> sep = CHR '','')
                        \<and> list_all is_digit fs \<and> fs \<noteq> []"
    then obtain sep fs where f: "w = ds @ sep # fs" "sep = CHR ''.'' \<or> sep = CHR '',''"
      "list_all is_digit fs" "fs \<noteq> []" by blast
    have "replace (CHR '','') ''.'' w = ds @ CHR ''.'' # fs"
      using f(2) by (auto simp: replace_char f(1) m[OF ds(1)] m[OF f(3)])
    then show ?thesis using py_float_decimal[OF ds(1) f(3)] f(4) by simp
  qed
qed

lemma plain_qty: "plain (Grp qty_body)"
  by (simp add: qty_body_def digit_def)

lemma Grp_Eos_match:
  assumes "lang r w" "plain r"
  shows "matches (Seq (Grp r) Eos) (pv, w, None) \<noteq> []"
proof -
  have "lang (Grp r) w" using assms(1) by (rule lang_Grp)
  moreover have "plain (Grp r)" using assms(2) by simp
  ultimately obtain e1 where e1: "e1 \<in> set (matches (Grp r) (pv, w @ [], None))" "rest e1 = []"
    using matches_complete[of "Grp r" w pv "[]" None] by blast
  obtain p g where s: "e1 = (p, [], g)" using e1(2) by (cases e1) (simp add: rest_def)
  have "e1 \<in> set (matches Eos e1)" unfolding s by simp
  with e1(1) have "e1 \<in> set (concat (map (matches Eos) (matches (Grp r) (pv, w, None))))"
    unfolding set_concat set_map by auto
  then have "e1 \<in> set (matches (Seq (Grp r) Eos) (pv, w, None))"
    by (simp only: matches.simps(2))
  then show ?thesis by auto
qed

lemma search_from_here:
  "matches r (pv, a, None) = e # es \<Longrightarrow> search_from r pv a = Some (a, e)"
  by (cases a) simp_all

lemma qty_search_sound:
  assumes "re_search qty_re l = Some m"
  shows "\<exists>x. l = x @ fst m" and "fst m = group_1 m @ rest (snd m)"
    and "lang qty_body (group_1 m)" and "rest (snd m) = [] \<or> rest (snd m) = [LF]"
proof -
  from search_from_sound[OF assms[unfolded re_search_def]] obtain pv0 x where
    x: "l = x @ fst m" and e: "snd m \<in> set (matches qty_re (pv0, fst m, None))"
    by blast
  show "\<exists>x. l = x @ fst m" using x by blast
  from matches_Seq_Eos[OF e[unfolded qty_re_def]]
  have g: "snd m \<in> set (matches (Grp qty_body) (pv0, fst m, None))"
    and r: "rest (snd m) = [] \<or> rest (snd m) = [LF]" by blast+
  show "rest (snd m) = [] \<or> rest (snd m) = [LF]" by (rule r)
  from Grp_sound[OF g] obtain w where w: "fst m = w @ rest (snd m)" "lang qty_body w"
    "group1 (snd m) = Some w" by blast
  then have "group_1 m = w" by (simp add: group_1_def)
  with w show "fst m = group_1 m @ rest (snd m)" "lang qty_body (group_1 m)" by simp_all
qed

lemma qty_of_search:
  assumes "\<not> has_iva l" "re_search qty_re l = Some m"
  shows "\<exists>v. qty_of l = Some v \<and> py_float (replace (CHR '','') ''.'' (group_1 m)) = Inr v"
proof -
  from qty_body_float[OF qty_search_sound(3)[OF assms(2)]] obtain v where
    "py_float (replace (CHR '','') ''.'' (group_1 m)) = Inr v" by blast
  then show ?thesis using assms by (simp add: qty_of_def)
qed

lemma qty_of_ends_in_digit:
  assumes "\<not> has_iva l" "LF \<notin> set l"
  shows "qty_of l \<noteq> None \<longleftrightarrow> l \<noteq> [] \<and> is_digit (last l)"
proof
  assume "qty_of l \<noteq> None"
  then obtain m where m: "re_search qty_re l = Some m"
    using assms(1) by (auto simp: qty_of_def split: option.splits)
  from qty_search_sound[OF m] obtain x where x: "l = x @ group_1 m @ rest (snd m)"
    and g: "lang qty_body (group_1 m)" and r: "rest (snd m) = [] \<or> rest (snd m) = [LF]"
    by auto
  from r x assms(2) have "rest (snd m) = []" by auto
  with x have "l = x @ group_1 m" by simp
  with qty_body_last_digit[OF g] show "l \<noteq> [] \<and> is_digit (last l)" by simp
next
  assume a: "l \<noteq> [] \<and> is_digit (last l)"
  let ?d = "last l"
  have "lang (Rep 1 None (Cls is_digit)) [?d]"
    using a by (intro lang_Rep_Cls_intro) simp_all
  moreover have "lang (Rep 0 (Some 1) (Seq (Cls (\<lambda>c. c = CHR ''.'' \<or> c = CHR '','')) (Rep 1 None digit))) []"
    by (rule lang_Rep0)
  ultimately have "lang qty_body ([?d] @ [])"
    unfolding qty_body_def digit_def by (rule lang_Seq)
  then have "lang qty_body [?d]" by simp
  from Grp_Eos_match[OF this] plain_qty
  have "matches qty_re (last_char None (butlast l), [?d], None) \<noteq> []"
    unfolding qty_re_def by simp
  from search_from_complete[OF this] a obtain m where "re_search qty_re l = Some m"
    by (auto simp: re_search_def)
  from qty_of_search[OF assms(1) this] show "qty_of l \<noteq> None" by auto
qed

section \<open>Scenarios\<close>

text \<open>
  C3: the lines DE000A1EWWW0, Apple Inc, Registered Shares, 14 give exactly one holding,
  named "Apple Inc Registered Shares", with quantity 14; the holding is still open when
  the lines end and is emitted by the code after the loop.  The same holds for the parser
  run on the text made of these four lines.
\<close>

theorem C3_apple_scenario:
  "reconstruct [''DE000A1EWWW0'', ''Apple Inc'', ''Registered Shares'', ''14'']
     = [\<lparr>name = ''Apple Inc Registered Shares'', isin = ''DE000A1EWWW0'',
          quantity = 14, market_value = 0\<rparr>]
   \<and> is_open (snd (foldl step ([], fresh)
         [''DE000A1EWWW0'', ''Apple Inc'', ''Registered Shares'', ''14'']))
   \<and> fst (foldl step ([], fresh)
         [''DE000A1EWWW0'', ''Apple Inc'', ''Registered Shares'', ''14'']) = []
   \<and> parse_tr_securities_statement_with_positions
         (''DE000A1EWWW0'' @ [LF] @ ''Apple Inc'' @ [LF] @ ''Registered Shares'' @ [LF] @ ''14'')
     = Inr (0, [\<lparr>name = ''Apple Inc Registered Shares'', isin = ''DE000A1EWWW0'',
          quantity = 14, market_value = 0\<rparr>])"
  by code_simp

text \<open>
  C2: the lines US0000000001, Name A, 5, US0000000002, Name B, 3 give two holdings.  For
  all lines the identifiers of the emitted holdings are the identifiers of the lines, in
  the order of the lines; and a line with an identifier, read while a holding is open,
  first appends the open holding to the output and then starts a new one with that
  identifier.
\<close>

theorem C2_back_to_back_in_order:
  "reconstruct [''US0000000001'', ''Name A'', ''5'', ''US0000000002'', ''Name B'', ''3'']
     = [\<lparr>name = ''Name A'', isin = ''US0000000001'', quantity = 5, market_value = 0\<rparr>,
        \<lparr>name = ''Name B'', isin = ''US0000000002'', quantity = 3, market_value = 0\<rparr>]
   \<and> map isin (reconstruct lines) = identifiers_of lines
   \<and> (is_open (snd pc) \<and> \<not> has_iva l \<and> re_search isin_re l = Some m \<longrightarrow>
        step pc l = (fst pc @ [emit (snd pc)], fresh\<lparr>cur_isin := Some (group0 m)\<rparr>))"
proof (intro conjI impI)
  show "reconstruct [''US0000000001'', ''Name A'', ''5'', ''US0000000002'', ''Name B'', ''3'']
     = [\<lparr>name = ''Name A'', isin = ''US0000000001'', quantity = 5, market_value = 0\<rparr>,
        \<lparr>name = ''Name B'', isin = ''US0000000002'', quantity = 3, market_value = 0\<rparr>]"
    by code_simp
  show "map isin (reconstruct lines) = identifiers_of lines"
    by (rule reconstruct_identifiers)
  assume "is_open (snd pc) \<and> \<not> has_iva l \<and> re_search isin_re l = Some m"
  then show "step pc l = (fst pc @ [emit (snd pc)], fresh\<lparr>cur_isin := Some (group0 m)\<rparr>)"
    by (simp add: step_isin)
qed

theorem C2_back_to_back_in_order_witness:
  "map isin (reconstruct [''US0000000001'', ''Name A'', ''5'', ''US0000000002'', ''Name B'', ''3''])
     = [''US0000000001'', ''US0000000002'']
   \<and> step ([], \<lparr>cur_name = '' Name A'', cur_isin = Some ''US0000000001'', cur_qty = Some 5\<rparr>)
        ''US0000000002''
     = ([\<lparr>name = ''Name A'', isin = ''US0000000001'', quantity = 5, market_value = 0\<rparr>],
        \<lparr>cur_name = [], cur_isin = Some ''US0000000002'', cur_qty = None\<rparr>)"
proof -
  have i: "identifiers_of [''US0000000001'', ''Name A'', ''5'', ''US0000000002'', ''Name B'', ''3'']
     = [''US0000000001'', ''US0000000002'']"
    by code_simp
  have h: "is_open (snd ([], \<lparr>cur_name = '' Name A'', cur_isin = Some ''US0000000001'',
               cur_qty = Some (5::rat)\<rparr>))
     \<and> \<not> has_iva ''US0000000002''
     \<and> re_search isin_re ''US0000000002''
         = Some (''US0000000002'', Some CHR ''2'', [], Some ''US0000000002'')"
    by code_simp
  have e: "emit \<lparr>cur_name = '' Name A'', cur_isin = Some ''US0000000001'', cur_qty = Some 5\<rparr>
     = \<lparr>name = ''Name A'', isin = ''US0000000001'', quantity = 5, market_value = 0\<rparr>"
    by code_simp
  have g: "group0 (''US0000000002'', Some CHR ''2'', [], Some ''US0000000002'') = ''US0000000002''"
    by code_simp
  from C2_back_to_back_in_order
    [of "[''US0000000001'', ''Name A'', ''5'', ''US0000000002'', ''Name B'', ''3'']"
        "([], \<lparr>cur_name = '' Name A'', cur_isin = Some ''US0000000001'', cur_qty = Some 5\<rparr>)"
        "''US0000000002''" "(''US0000000002'', Some CHR ''2'', [], Some ''US0000000002'')"]
  show ?thesis using i h e g by (simp add: fresh_def)
qed

text \<open>
  C4, as the code has it: the second loop, which builds the holdings, skips every line
  that contains IVA; the holdings are those of the input without these lines, so such a
  line gives no identifier, no quantity and no part of a name.  The first loop, which
  looks for the total, reads every line.
\<close>

theorem C4_iva_lines_skipped_by_reconstruction:
  "reconstruct lines = reconstruct (filter (\<lambda>l. \<not> has_iva l) lines)
   \<and> (has_iva l \<longrightarrow> step pc l = pc)"
  by (simp add: reconstruct_def foldl_step_filter step_iva)

theorem C4_iva_lines_skipped_by_reconstruction_witness:
  "reconstruct [''US0000000001'', ''Sede legale P. IVA 12345678901'', ''Name A'', ''5'']
     = [\<lparr>name = ''Name A'', isin = ''US0000000001'', quantity = 5, market_value = 0\<rparr>]
   \<and> step ([], \<lparr>cur_name = [], cur_isin = Some ''US0000000001'', cur_qty = None\<rparr>)
        ''Sede legale P. IVA 12345678901''
     = ([], \<lparr>cur_name = [], cur_isin = Some ''US0000000001'', cur_qty = None\<rparr>)"
proof -
  have f: "filter (\<lambda>l. \<not> has_iva l)
       [''US0000000001'', ''Sede legale P. IVA 12345678901'', ''Name A'', ''5'']
     = [''US0000000001'', ''Name A'', ''5'']"
    by code_simp
  have r: "reconstruct [''US0000000001'', ''Name A'', ''5'']
     = [\<lparr>name = ''Name A'', isin = ''US0000000001'', quantity = 5, market_value = 0\<rparr>]"
    by code_simp
  have h: "has_iva ''Sede legale P. IVA 12345678901''"
    by code_simp
  from C4_iva_lines_skipped_by_reconstruction
    [of "[''US0000000001'', ''Sede legale P. IVA 12345678901'', ''Name A'', ''5'']"
        "''Sede legale P. IVA 12345678901''"
        "([], \<lparr>cur_name = [], cur_isin = Some ''US0000000001'', cur_qty = None\<rparr>)"]
  show ?thesis using f r h by simp
qed

text \<open>
  The claim as written fails for the total: a line with the marker of the total and with
  IVA sets the total, which is 0.0 on the text without that line.
\<close>

theorem C4_iva_line_sets_total_counterexample:
  "has_iva ''NUMERO DI POSIZIONI: 1 1,00 EUR P. IVA''
   \<and> parse_tr_securities_statement_with_positions ''NUMERO DI POSIZIONI: 1 1,00 EUR P. IVA''
       = Inr (1, [])
   \<and> parse_tr_securities_statement_with_positions [] = Inr (0, [])"
  by code_simp

text \<open>
  C8: for every token that the amount pattern matches as a whole, taking out every point
  and turning the comma into a point leaves the digits before the comma, a point and the
  two digits after it, and \<^verbatim>\<open>float\<close> of that literal is the number written by the digits
  of the token, divided by 100.  So 62.348,68 gives 62348.68 and 14,00 gives 14.0.
\<close>

theorem C8_amount_conversion:
  "(fullmatch amount_re tok \<longrightarrow>
      amount_to_float tok = Inr (of_nat (digits_val (filter is_digit tok)) / 100)
      \<and> replace (CHR '','') ''.'' (replace (CHR ''.'') [] tok)
          = filter is_digit (takeWhile (\<lambda>c. c \<noteq> CHR '','') tok)
            @ CHR ''.'' # drop (length tok - 2) tok)
   \<and> amount_to_float ''62.348,68'' = Inr 62348.68
   \<and> amount_to_float ''14,00'' = Inr 14.0"
proof (intro conjI impI)
  assume "fullmatch amount_re tok"
  then have l: "lang amount_body tok"
    unfolding amount_re_def by (rule fullmatch_lang)
  show "amount_to_float tok = Inr (of_nat (digits_val (filter is_digit tok)) / 100)"
    by (rule amount_to_float_lang[OF l])
  show "replace (CHR '','') ''.'' (replace (CHR ''.'') [] tok)
          = filter is_digit (takeWhile (\<lambda>c. c \<noteq> CHR '','') tok)
            @ CHR ''.'' # drop (length tok - 2) tok"
    by (rule amount_literal[OF l])
next
  show "amount_to_float ''62.348,68'' = Inr 62348.68"
    by (simp add: amount_to_float_def replace_def py_float_def is_digit_def digits_val_def Let_def)
  show "amount_to_float ''14,00'' = Inr 14.0"
    by (simp add: amount_to_float_def replace_def py_float_def is_digit_def digits_val_def Let_def)
qed

theorem C8_amount_conversion_witness:
  "amount_to_float ''1.234.567,89'' = Inr 1234567.89
   \<and> replace (CHR '','') ''.'' (replace (CHR ''.'') [] ''1.234.567,89'') = ''1234567.89''"
proof -
  have h: "fullmatch amount_re ''1.234.567,89''" by code_simp
  have v: "(of_nat (digits_val (filter is_digit ''1.234.567,89'')) / 100 :: rat) = 1234567.89"
    by (simp add: is_digit_def digits_val_def)
  have s: "filter is_digit (takeWhile (\<lambda>c. c \<noteq> CHR '','') ''1.234.567,89'')
            @ CHR ''.'' # drop (length ''1.234.567,89'' - 2) ''1.234.567,89'' = ''1234567.89''"
    by (simp add: is_digit_def)
  from C8_amount_conversion[of "''1.234.567,89''"] h
  have "amount_to_float ''1.234.567,89''
          = Inr (of_nat (digits_val (filter is_digit ''1.234.567,89'')) / 100)"
    and "replace (CHR '','') ''.'' (replace (CHR ''.'') [] ''1.234.567,89'')
          = filter is_digit (takeWhile (\<lambda>c. c \<noteq> CHR '','') ''1.234.567,89'')
            @ CHR ''.'' # drop (length ''1.234.567,89'' - 2) ''1.234.567,89''"
    by blast+
  then show ?thesis unfolding v s by simp
qed

text \<open>
  C6: where the first line that contains "Conto corrente" holds an amount, the cash parser
  returns the last amount of that line, converted: the number written by its digits, over
  100.  The witness is the line of the claim, with the euro sign (a character beyond the
  8-bit range of the model) written as the currency sign 0xA4; it gives 4528.82.
\<close>

theorem C6_conto_corrente_last_amount:
  assumes "find (\<lambda>l. contains l ''Conto corrente'') (splitlines text) = Some line"
    and "findall amount_re line \<noteq> []"
  shows "parse_tr_cash_statement text = amount_to_float (last (findall amount_re line))
     \<and> parse_tr_cash_statement text
         = Inr (of_nat (digits_val (filter is_digit (last (findall amount_re line)))) / 100)"
proof -
  from find_conj[OF assms(1), of "\<lambda>l. findall amount_re l \<noteq> []"] assms(2)
  have "find (\<lambda>l. contains l ''Conto corrente'' \<and> findall amount_re l \<noteq> []) (splitlines text)
          = Some line" by simp
  then have "parse_tr_cash_statement text = amount_to_float (last (findall amount_re line))"
    by (simp add: parse_tr_cash_statement_find)
  then show ?thesis using last_amount_float[OF assms(2)] by simp
qed

theorem C6_conto_corrente_last_amount_witness:
  "parse_tr_cash_statement
     (''Conto corrente 2.646,02 '' @ [CHR 0xA4] @ '' 4.528,82 '' @ [CHR 0xA4]) = Inr 4528.82
   \<and> findall amount_re (''Conto corrente 2.646,02 '' @ [CHR 0xA4] @ '' 4.528,82 '' @ [CHR 0xA4])
       = [''2.646,02'', ''4.528,82'']"
proof -
  let ?t = "''Conto corrente 2.646,02 '' @ [CHR 0xA4] @ '' 4.528,82 '' @ [CHR 0xA4]"
  have f: "find (\<lambda>l. contains l ''Conto corrente'') (splitlines ?t) = Some ?t"
    by code_simp
  have a: "findall amount_re ?t = [''2.646,02'', ''4.528,82'']"
    by code_simp
  have ne: "findall amount_re ?t \<noteq> []"
    unfolding a by simp
  have p: "parse_tr_cash_statement ?t = Inr 4528.82"
    using C6_conto_corrente_last_amount[OF f ne, THEN conjunct2] unfolding a
    by (simp add: is_digit_def digits_val_def)
  show ?thesis using p a by blast
qed

text \<open>
  C5, as the code has it: the parser takes the first "Conto corrente" line that holds an
  amount; only when no "Conto corrente" line holds an amount (such lines may exist) it
  takes the first "Citibank" line that holds an amount; it raises the error with the
  message about the balance exactly when no line with either marker holds an amount.  It
  raises no other error, and on every input the result is a number or that error.
\<close>

theorem C5_cash_fallback_and_failure:
  "parse_tr_cash_statement text =
     (case find (\<lambda>l. contains l ''Conto corrente'' \<and> findall amount_re l \<noteq> []) (splitlines text) of
        Some l \<Rightarrow> amount_to_float (last (findall amount_re l))
      | None \<Rightarrow>
          (case find (\<lambda>l. contains l ''Citibank'' \<and> findall amount_re l \<noteq> []) (splitlines text) of
             Some l \<Rightarrow> amount_to_float (last (findall amount_re l))
           | None \<Rightarrow> Inl BalanceNotFound))
   \<and> (parse_tr_cash_statement text = Inl BalanceNotFound \<longleftrightarrow>
        (\<forall>l \<in> set (splitlines text).
           (contains l ''Conto corrente'' \<or> contains l ''Citibank'') \<longrightarrow> findall amount_re l = []))
   \<and> ((\<exists>v. parse_tr_cash_statement text = Inr v) \<or> parse_tr_cash_statement text = Inl BalanceNotFound)"
proof (intro conjI)
  show c: "parse_tr_cash_statement text =
     (case find (\<lambda>l. contains l ''Conto corrente'' \<and> findall amount_re l \<noteq> []) (splitlines text) of
        Some l \<Rightarrow> amount_to_float (last (findall amount_re l))
      | None \<Rightarrow>
          (case find (\<lambda>l. contains l ''Citibank'' \<and> findall amount_re l \<noteq> []) (splitlines text) of
             Some l \<Rightarrow> amount_to_float (last (findall amount_re l))
           | None \<Rightarrow> Inl BalanceNotFound))"
    by (rule parse_tr_cash_statement_find)
  let ?A = "find (\<lambda>l. contains l ''Conto corrente'' \<and> findall amount_re l \<noteq> []) (splitlines text)"
  let ?B = "find (\<lambda>l. contains l ''Citibank'' \<and> findall amount_re l \<noteq> []) (splitlines text)"
  have some: "\<And>l. ?A = Some l \<or> (?A = None \<and> ?B = Some l) \<Longrightarrow>
      \<exists>v. parse_tr_cash_statement text = Inr v"
  proof -
    fix l assume h: "?A = Some l \<or> (?A = None \<and> ?B = Some l)"
    then have "findall amount_re l \<noteq> []" using find_Some_in by fastforce
    from amount_to_float_last_Inr[OF this] h show "\<exists>v. parse_tr_cash_statement text = Inr v"
      unfolding c by auto
  qed
  have none: "?A = None \<and> ?B = None \<longleftrightarrow>
      (\<forall>l \<in> set (splitlines text).
           (contains l ''Conto corrente'' \<or> contains l ''Citibank'') \<longrightarrow> findall amount_re l = [])"
    unfolding find_None_all by blast
  have cases: "(\<exists>l. ?A = Some l \<or> (?A = None \<and> ?B = Some l)) \<or> (?A = None \<and> ?B = None)"
    by (cases ?A; cases ?B) auto
  show "parse_tr_cash_statement text = Inl BalanceNotFound \<longleftrightarrow>
        (\<forall>l \<in> set (splitlines text).
           (contains l ''Conto corrente'' \<or> contains l ''Citibank'') \<longrightarrow> findall amount_re l = [])"
  proof
    assume e: "parse_tr_cash_statement text = Inl BalanceNotFound"
    with some cases have "?A = None \<and> ?B = None" by fastforce
    then show "\<forall>l \<in> set (splitlines text).
           (contains l ''Conto corrente'' \<or> contains l ''Citibank'') \<longrightarrow> findall amount_re l = []"
      using none by blast
  next
    assume "\<forall>l \<in> set (splitlines text).
           (contains l ''Conto corrente'' \<or> contains l ''Citibank'') \<longrightarrow> findall amount_re l = []"
    then have "?A = None \<and> ?B = None" using none by blast
    then show "parse_tr_cash_statement text = Inl BalanceNotFound"
      unfolding c by simp
  qed
  show "(\<exists>v. parse_tr_cash_statement text = Inr v) \<or> parse_tr_cash_statement text = Inl BalanceNotFound"
  proof -
    from cases show ?thesis
    proof
      assume "\<exists>l. ?A = Some l \<or> (?A = None \<and> ?B = Some l)"
      then show ?thesis using some by blast
    next
      assume "?A = None \<and> ?B = None"
      then show ?thesis unfolding c by simp
    qed
  qed
qed

theorem C5_cash_fallback_and_failure_witness:
  "parse_tr_cash_statement (''Saldo 1,00'' @ [LF] @ ''Conto corrente'') = Inl BalanceNotFound
   \<and> parse_tr_cash_statement (''Conto corrente 2,00'' @ [LF] @ ''Citibank 1,00'') = Inr 2"
proof -
  have h: "\<forall>l \<in> set (splitlines (''Saldo 1,00'' @ [LF] @ ''Conto corrente'')).
      (contains l ''Conto corrente'' \<or> contains l ''Citibank'') \<longrightarrow> findall amount_re l = []"
    by code_simp
  have a: "parse_tr_cash_statement (''Saldo 1,00'' @ [LF] @ ''Conto corrente'') = Inl BalanceNotFound"
    using C5_cash_fallback_and_failure[of "''Saldo 1,00'' @ [LF] @ ''Conto corrente''"] h by blast
  have f: "find (\<lambda>l. contains l ''Conto corrente'' \<and> findall amount_re l \<noteq> [])
             (splitlines (''Conto corrente 2,00'' @ [LF] @ ''Citibank 1,00'')) = Some ''Conto corrente 2,00''"
    by code_simp
  have v: "amount_to_float (last (findall amount_re ''Conto corrente 2,00'')) = Inr 2"
    by code_simp
  have b: "parse_tr_cash_statement (''Conto corrente 2,00'' @ [LF] @ ''Citibank 1,00'') = Inr 2"
    using C5_cash_fallback_and_failure[of "''Conto corrente 2,00'' @ [LF] @ ''Citibank 1,00''", THEN conjunct1]
    unfolding f using v by simp
  show ?thesis using a b by blast
qed

text \<open>
  The claim as written fails: here a line containing "Conto corrente" exists, and the
  parser still returns the amount of the "Citibank" line.
\<close>

theorem C5_citibank_despite_conto_corrente_counterexample:
  "list_ex (\<lambda>l. contains l ''Conto corrente'')
     (splitlines (''Conto corrente'' @ [LF] @ ''Citibank 1,00''))
   \<and> parse_tr_cash_statement (''Conto corrente'' @ [LF] @ ''Citibank 1,00'') = Inr 1"
  by code_simp



text \<open>
  C7: on a text in which no line with the marker "NUMERO DI POSIZIONI" holds an amount
  (in particular when no line holds the marker), the total-only parser raises the error
  with the message about the total, and the position-aware parser raises nothing: it
  returns the total 0.0 together with the holdings reconstructed from the lines of the
  same text.
\<close>

theorem C7_missing_total_asymmetry:
  assumes "\<forall>l \<in> set (splitlines text).
             contains l ''NUMERO DI POSIZIONI'' \<longrightarrow> findall amount_re l = []"
  shows "parse_tr_securities_statement text = Inl PortfolioTotalNotFound
     \<and> parse_tr_securities_statement_with_positions text
         = Inr (0, reconstruct (logical_lines text))"
proof
  show "parse_tr_securities_statement text = Inl PortfolioTotalNotFound"
    using last_amount_of_first_None[OF assms]
    by (simp add: parse_tr_securities_statement_def)
  have "\<forall>l' \<in> set (logical_lines text).
          contains l' ''NUMERO DI POSIZIONI'' \<longrightarrow> re_search total_regex l' = None"
  proof (intro ballI impI)
    fix l' assume "l' \<in> set (logical_lines text)" and c: "contains l' ''NUMERO DI POSIZIONI''"
    then obtain l where l: "l \<in> set (splitlines text)" "l' = strip l"
      by (auto simp: logical_lines_def)
    from c l(2) have "contains l ''NUMERO DI POSIZIONI''" using contains_strip by blast
    with assms l(1) have "findall amount_re l = []" by blast
    then show "re_search total_regex l' = None"
      using total_regex_amount[of l] l(2) by (cases "re_search total_regex l'") auto
  qed
  from find_total_zero[OF this]
  show "parse_tr_securities_statement_with_positions text
         = Inr (0, reconstruct (logical_lines text))"
    by (simp add: parse_tr_securities_statement_with_positions_def)
qed

theorem C7_missing_total_asymmetry_witness:
  "parse_tr_securities_statement
     (''NUMERO DI POSIZIONI: 1'' @ [LF] @ ''US0000000001'' @ [LF] @ ''Name A'' @ [LF] @ ''5'')
     = Inl PortfolioTotalNotFound
   \<and> parse_tr_securities_statement_with_positions
     (''NUMERO DI POSIZIONI: 1'' @ [LF] @ ''US0000000001'' @ [LF] @ ''Name A'' @ [LF] @ ''5'')
     = Inr (0, [\<lparr>name = ''Name A'', isin = ''US0000000001'', quantity = 5, market_value = 0\<rparr>])"
proof -
  let ?t = "''NUMERO DI POSIZIONI: 1'' @ [LF] @ ''US0000000001'' @ [LF] @ ''Name A'' @ [LF] @ ''5''"
  have h: "\<forall>l \<in> set (splitlines ?t).
             contains l ''NUMERO DI POSIZIONI'' \<longrightarrow> findall amount_re l = []"
    by code_simp
  have r: "reconstruct (logical_lines ?t)
     = [\<lparr>name = ''Name A'', isin = ''US0000000001'', quantity = 5, market_value = 0\<rparr>]"
    by code_simp
  from C7_missing_total_asymmetry[OF h] show ?thesis unfolding r by blast
qed

text \<open>
  C10: a line in which the identifier pattern matches gives the reconstruction its
  identifier and nothing else.  One pass of the loop over such a line only emits the open
  holding, if there is one, and starts a holding with that identifier, with empty name
  and no quantity; and in any input the line can be replaced by the bare identifier
  without changing the output, so the text around the identifier reaches no name and no
  quantity, also when the line ends in digits.  (A line that also contains IVA is skipped
  as a whole, identifier included.)
\<close>

theorem C10_identifier_line_gives_only_identifier:
  assumes "re_search isin_re l = Some m"
  shows "step pc l =
           (if has_iva l then pc
            else if is_open (snd pc)
                 then (fst pc @ [emit (snd pc)], fresh\<lparr>cur_isin := Some (group0 m)\<rparr>)
                 else (fst pc, (snd pc)\<lparr>cur_isin := Some (group0 m)\<rparr>))
     \<and> reconstruct (xs @ l # ys)
         = reconstruct (xs @ (if has_iva l then [] else [group0 m]) @ ys)"
proof (cases "has_iva l")
  case True
  then show ?thesis by (simp add: step_iva reconstruct_skip_iva)
next
  case False
  have i: "ident_of l = Some (group0 m)"
    using False assms by (simp add: ident_of_def)
  have "collect (xs @ l # ys) = collect (xs @ group0 m # ys)"
    by (rule collect_same_ident[OF i ident_of_self[OF i]])
  then have "reconstruct (xs @ l # ys) = reconstruct (xs @ group0 m # ys)"
    by (simp only: reconstruct_spec spec_segments_def)
  then show ?thesis using False step_isin[OF False assms, of pc] by simp
qed

theorem C10_identifier_line_gives_only_identifier_witness:
  "reconstruct [''IE00B4L5Y983'', ''Core'', ''Apple US0000000001 14'', ''Name A'', ''5'']
     = [\<lparr>name = ''Core'', isin = ''IE00B4L5Y983'', quantity = 0, market_value = 0\<rparr>,
        \<lparr>name = ''Name A'', isin = ''US0000000001'', quantity = 5, market_value = 0\<rparr>]
   \<and> step ([], \<lparr>cur_name = '' Core'', cur_isin = Some ''IE00B4L5Y983'', cur_qty = None\<rparr>)
        ''Apple US0000000001 14''
     = ([\<lparr>name = ''Core'', isin = ''IE00B4L5Y983'', quantity = 0, market_value = 0\<rparr>],
        \<lparr>cur_name = [], cur_isin = Some ''US0000000001'', cur_qty = None\<rparr>)"
proof -
  let ?m = "(''US0000000001 14'', Some CHR ''1'', '' 14'', Some ''US0000000001'')"
  have h: "re_search isin_re ''Apple US0000000001 14'' = Some ?m"
    by code_simp
  have g: "group0 ?m = ''US0000000001''" by code_simp
  have v: "\<not> has_iva ''Apple US0000000001 14''" by code_simp
  have o: "is_open (snd ([], \<lparr>cur_name = '' Core'', cur_isin = Some ''IE00B4L5Y983'',
               cur_qty = (None :: rat option)\<rparr>))"
    by code_simp
  have e: "emit \<lparr>cur_name = '' Core'', cur_isin = Some ''IE00B4L5Y983'', cur_qty = None\<rparr>
     = \<lparr>name = ''Core'', isin = ''IE00B4L5Y983'', quantity = 0, market_value = 0\<rparr>"
    by code_simp
  have r: "reconstruct ([''IE00B4L5Y983'', ''Core''] @ [''US0000000001''] @ [''Name A'', ''5''])
     = [\<lparr>name = ''Core'', isin = ''IE00B4L5Y983'', quantity = 0, market_value = 0\<rparr>,
        \<lparr>name = ''Name A'', isin = ''US0000000001'', quantity = 5, market_value = 0\<rparr>]"
    by code_simp
  note t = C10_identifier_line_gives_only_identifier[OF h,
      of "([], \<lparr>cur_name = '' Core'', cur_isin = Some ''IE00B4L5Y983'', cur_qty = None\<rparr>)"
         "[''IE00B4L5Y983'', ''Core'']" "[''Name A'', ''5'']"]
  have a: "reconstruct ([''IE00B4L5Y983'', ''Core''] @ ''Apple US0000000001 14'' # [''Name A'', ''5''])
     = [\<lparr>name = ''Core'', isin = ''IE00B4L5Y983'', quantity = 0, market_value = 0\<rparr>,
        \<lparr>name = ''Name A'', isin = ''US0000000001'', quantity = 5, market_value = 0\<rparr>]"
    using t v r unfolding g by simp
  have b: "step ([], \<lparr>cur_name = '' Core'', cur_isin = Some ''IE00B4L5Y983'', cur_qty = None\<rparr>)
        ''Apple US0000000001 14''
     = ([\<lparr>name = ''Core'', isin = ''IE00B4L5Y983'', quantity = 0, market_value = 0\<rparr>],
        \<lparr>cur_name = [], cur_isin = Some ''US0000000001'', cur_qty = None\<rparr>)"
    using t v o e unfolding g by (simp add: fresh_def)
  show ?thesis using a b by simp
qed

end
